theory Spec2Isabelle
  imports Complex_Main "HOL-Library.Multiset"
begin

section \<open>Tracker featurizers of \<open>rasa/core/featurizers.py\<close>\<close>

text \<open>
  A shallow embedding of the tracker-featurization pipeline: the single-state encoder
  (\<open>SingleStateFeaturizer\<close>, \<open>BOWSingleStateFeaturizer\<close>) and the three tracker
  featurizer classes (\<open>TrackerFeaturizer\<close>, \<open>FullDialogueTrackerFeaturizer\<close>,
  \<open>MaxHistoryTrackerFeaturizer\<close>). Exceptions are values of \<open>error\<close>; dictionaries that
  the code mutates in place live in an explicit store, since the windows of the max-history
  variant share them.
\<close>

subsection \<open>Python values\<close>

datatype error =
    KeyError string  \<comment> \<open>\<open>del d[k]\<close> with \<open>k\<close> missing\<close>
  | NotImplementedError  \<comment> \<open>the abstract methods of the base classes\<close>
  | ValueError_state_featurizer_not_set  \<comment> \<open>raised by \<open>featurize_trackers\<close>\<close>
  | Exception_two_unpredictable_actions  \<comment> \<open>raised by the full-dialogue variant\<close>
  | AttributeError  \<comment> \<open>a method called on \<open>None\<close>, or an untrained vectorizer read\<close>
  | TypeError  \<comment> \<open>\<open>len(states) < None\<close>\<close>
  | IndexError  \<comment> \<open>numpy index out of bounds\<close>
  | UnknownAction string  \<comment> \<open>\<open>domain.index_for_action\<close> failing\<close>

text \<open>
  A \<open>dict\<close> with string keys and float values: the items in insertion order, the keys
  distinct. Weights are modelled as reals (the comparisons \<open>>\<close> of the code on floats
  that are not NaN).
\<close>

type_synonym pydict = "(string \<times> real) list"

definition keys :: "pydict \<Rightarrow> string list" where
  "keys d = map fst d"

text \<open>\<open>d[k] = v\<close>: an existing key keeps its position, a new key goes to the end.\<close>

fun setitem :: "string \<Rightarrow> real \<Rightarrow> pydict \<Rightarrow> pydict" where
  "setitem k v [] = [(k, v)]"
| "setitem k v (p # d) = (if fst p = k then (k, v) # d else p # setitem k v d)"

text \<open>\<open>del d[k]\<close>: raises \<open>KeyError\<close> when the key is missing.\<close>

definition delitem :: "string \<Rightarrow> pydict \<Rightarrow> error + pydict" where
  "delitem k d =
     (if k \<in> set (keys d) then Inr (filter (\<lambda>p. fst p \<noteq> k) d) else Inl (KeyError k))"

text \<open>\<open>dict(items)\<close> for an iterable of pairs: a later pair overwrites an earlier key.\<close>

definition dict :: "(string \<times> real) list \<Rightarrow> pydict" where
  "dict items = foldl (\<lambda>d p. setitem (fst p) (snd p) d) [] items"

text \<open>\<open>s.startswith(p)\<close>\<close>

definition startswith :: "string \<Rightarrow> string \<Rightarrow> bool" where
  "startswith s p = (take (length p) s = p)"

text \<open>
  A loop or list comprehension \<open>[f(x) for x in xs]\<close> whose body can raise: the first
  exception ends it.
\<close>

fun map_result :: "('a \<Rightarrow> error + 'b) \<Rightarrow> 'a list \<Rightarrow> error + 'b list" where
  "map_result f [] = Inr []"
| "map_result f (x # xs) =
     (case f x of
        Inl e \<Rightarrow> Inl e
      | Inr y \<Rightarrow> (case map_result f xs of Inl e \<Rightarrow> Inl e | Inr ys \<Rightarrow> Inr (y # ys)))"

subsection \<open>Events, trackers, domain\<close>

text \<open>
  The classes \<open>DialogueStateTracker\<close>, \<open>ActionExecuted\<close> and \<open>Domain\<close> are imported by
  \<open>featurizers.py\<close>; the featurizers read only the members below.

  An element of \<open>tracker.past_states(domain)\<close> is iterated as pairs
  (\<open>for state_name, prob in state\<close>) and turned into a dictionary by \<open>dict(state)\<close>: it is
  the collection of the items of a turn's state, here the list of its pairs in iteration
  order.
\<close>

type_synonym state = "(string \<times> real) list"

datatype event =
    ActionExecuted (action_name: string) (unpredictable: bool)
  | OtherEvent  \<comment> \<open>any event that is not an \<open>ActionExecuted\<close>\<close>

record tracker =
  past_states :: "state list"  \<comment> \<open>the value of \<open>tracker.past_states(domain)\<close>\<close>
  applied_events :: "event list"  \<comment> \<open>the value of \<open>tracker.applied_events()\<close>\<close>

record domain =
  num_actions :: nat
  index_for_action :: "string \<Rightarrow> nat option"  \<comment> \<open>\<open>None\<close>: the lookup raises\<close>
  input_states :: "string list"

subsection \<open>\<open>TrackerFeaturizer._create_states\<close>: one best intent per turn\<close>

text \<open>
  The body of the inner loop \<open>for state_name, prob in state\<close>; the loop variables are
  \<open>bin_state\<close>, \<open>best_intent\<close> and \<open>best_intent_prob\<close>.
\<close>

type_synonym best = "pydict \<times> string option \<times> real"

definition best_intent_step :: "best \<Rightarrow> string \<times> real \<Rightarrow> error + best" where
  "best_intent_step acc item =
     (case acc of (bin_state, best_intent, best_intent_prob) \<Rightarrow>
      case item of (state_name, prob) \<Rightarrow>
        if startswith state_name ''intent_'' then
          if prob > best_intent_prob then
            (case best_intent of
               None \<Rightarrow> Inr (bin_state, Some state_name, prob)
             | Some b \<Rightarrow>
                 (case delitem b bin_state of
                    Inl e \<Rightarrow> Inl e
                  | Inr bin_state' \<Rightarrow> Inr (bin_state', Some state_name, prob)))
          else
            (case delitem state_name bin_state of
               Inl e \<Rightarrow> Inl e
             | Inr bin_state' \<Rightarrow> Inr (bin_state', best_intent, best_intent_prob))
        else Inr acc)"

fun best_intent_loop :: "best \<Rightarrow> state \<Rightarrow> error + best" where
  "best_intent_loop acc [] = Inr acc"
| "best_intent_loop acc (item # rest) =
     (case best_intent_step acc item of
        Inl e \<Rightarrow> Inl e
      | Inr acc' \<Rightarrow> best_intent_loop acc' rest)"

text \<open>The body of the outer loop \<open>for state in states\<close>: the \<open>bin_state\<close> appended.\<close>

definition bin_state_of :: "state \<Rightarrow> error + pydict" where
  "bin_state_of st =
     (case best_intent_loop (dict st, None, - 1) st of
        Inl e \<Rightarrow> Inl e
      | Inr (bin_state, best_intent, best_intent_prob) \<Rightarrow>
          (case best_intent of
             None \<Rightarrow> Inr bin_state
           | Some b \<Rightarrow> Inr (setitem b 1 bin_state)))"

definition bin_states_of :: "state list \<Rightarrow> error + pydict list" where
  "bin_states_of states = map_result bin_state_of states"

subsection \<open>The store of dictionaries\<close>

text \<open>
  \<open>_postprocess_trackers_as_states\<close> deletes keys of the state dictionaries in place, and
  the windows that \<open>MaxHistoryTrackerFeaturizer\<close> slices from one tracker hold the same
  dictionary objects. A dictionary object is therefore a reference into a store; a new
  object takes the next free address. A turn of a state sequence is a reference or
  \<open>None\<close> (the padding).
\<close>

type_synonym ref = nat
type_synonym heap = "pydict list"
type_synonym turn = "ref option"

definition new_dicts :: "pydict list \<Rightarrow> heap \<Rightarrow> ref list \<times> heap" where
  "new_dicts ds h = ([length h ..< length h + length ds], h @ ds)"

text \<open>The content of a turn: \<open>None\<close> stays \<open>None\<close>.\<close>

definition content :: "heap \<Rightarrow> turn \<Rightarrow> pydict option" where
  "content h t = map_option (\<lambda>r. h ! r) t"

subsection \<open>The state encoder\<close>

text \<open>
  \<open>BOWSingleStateFeaturizer\<close> inherits from \<open>CountVectorsFeaturizer\<close>, which is imported:
  its training (\<open>train\<close>, giving the vocabulary of the text vectorizer) and its
  vectorization of a message (\<open>_get_processed_message_tokens_by_attribute\<close> followed by
  \<open>_create_sequence\<close>, of which \<open>encode\<close> takes the last row) are parameters, as is the
  constant \<open>CLS_TOKEN\<close>.
\<close>

record count_vectors =
  CLS_TOKEN :: string
  train :: "string list \<Rightarrow> string list"  \<comment> \<open>training messages to vocabulary\<close>
  create_sequence :: "string list \<Rightarrow> string \<Rightarrow> int list"  \<comment> \<open>vocabulary, message text\<close>

text \<open>
  The encoder object: the base class, or the bag-of-words encoder with the vocabulary of
  its text vectorizer (\<open>None\<close> before training).
\<close>

datatype single_state_featurizer =
    SingleStateFeaturizer
  | BOWSingleStateFeaturizer (vocabulary: "string list option")

text \<open>\<open>key.replace(self.delimiter, " ")\<close> with the delimiter \<open>'_'\<close>\<close>

definition replace_delimiter :: "string \<Rightarrow> string" where
  "replace_delimiter key = map (\<lambda>c. if c = CHR ''_'' then CHR '' '' else c) key"

text \<open>\<open>sep.join(xs)\<close>\<close>

fun join :: "string \<Rightarrow> string list \<Rightarrow> string" where
  "join sep [] = []"
| "join sep [x] = x"
| "join sep (x # y # ys) = x @ sep @ join sep (y # ys)"


text \<open>
  \<open>encode\<close> with \<open>type_output="dense"\<close>. Reading the vocabulary of a vectorizer that was
  never trained fails; the exception is the one of the imported class, here
  \<open>AttributeError\<close>.
\<close>

definition encode ::
  "count_vectors \<Rightarrow> single_state_featurizer \<Rightarrow> pydict option \<Rightarrow> error + int list" where
  "encode cv sf st =
     (case sf of
        SingleStateFeaturizer \<Rightarrow> Inl NotImplementedError
      | BOWSingleStateFeaturizer voc \<Rightarrow>
          (case voc of
             None \<Rightarrow> Inl AttributeError
           | Some vocab \<Rightarrow>
               (case st of
                  None \<Rightarrow> Inr (replicate (length vocab) (- 1))
                | Some d \<Rightarrow>
                    Inr (create_sequence cv vocab
                           (join '' '' (map replace_delimiter (keys d)))))))"

text \<open>
  \<open>action_as_one_hot\<close>: \<open>np.ones(n) * -1\<close> for \<open>None\<close>; otherwise \<open>np.zeros(n)\<close> with
  one entry assigned, which numpy refuses out of bounds.
\<close>

definition action_as_one_hot :: "string option \<Rightarrow> domain \<Rightarrow> error + int list" where
  "action_as_one_hot action dmn =
     (case action of
        None \<Rightarrow> Inr (replicate (num_actions dmn) (- 1))
      | Some a \<Rightarrow>
          (case index_for_action dmn a of
             None \<Rightarrow> Inl (UnknownAction a)
           | Some i \<Rightarrow>
               if i < num_actions dmn
               then Inr ((replicate (num_actions dmn) 0)[i := 1])
               else Inl IndexError))"

subsection \<open>The tracker featurizers\<close>

text \<open>The three classes with their attributes.\<close>

datatype featurizer =
    TrackerFeaturizer
      (state_featurizer: "single_state_featurizer option")
      (use_intent_probabilities: bool)
  | FullDialogueTrackerFeaturizer
      (state_featurizer: "single_state_featurizer option")
      (use_intent_probabilities: bool)
      (max_len: "nat option")
  | MaxHistoryTrackerFeaturizer
      (state_featurizer: "single_state_featurizer option")
      (use_intent_probabilities: bool)
      (max_history: int)
      (remove_duplicates: bool)

text \<open>\<open>MaxHistoryTrackerFeaturizer.__init__\<close>: \<open>max_history or MAX_HISTORY_DEFAULT\<close>\<close>

definition MAX_HISTORY_DEFAULT :: int where
  "MAX_HISTORY_DEFAULT = 5"

definition MaxHistoryTrackerFeaturizer_init ::
  "single_state_featurizer option \<Rightarrow> int option \<Rightarrow> bool \<Rightarrow> bool \<Rightarrow> featurizer" where
  "MaxHistoryTrackerFeaturizer_init sf mh rd uip =
     MaxHistoryTrackerFeaturizer sf uip
       (case mh of None \<Rightarrow> MAX_HISTORY_DEFAULT
        | Some n \<Rightarrow> if n = 0 then MAX_HISTORY_DEFAULT else n)
       rd"

definition FullDialogueTrackerFeaturizer_init ::
  "single_state_featurizer option \<Rightarrow> bool \<Rightarrow> featurizer" where
  "FullDialogueTrackerFeaturizer_init sf uip = FullDialogueTrackerFeaturizer sf uip None"

text \<open>
  \<open>_create_states\<close>: the new dictionaries are allocated in the store and the list of
  their references is returned.
\<close>

definition create_states ::
  "featurizer \<Rightarrow> tracker \<Rightarrow> bool \<Rightarrow> heap \<Rightarrow> error + (turn list \<times> heap)" where
  "create_states fz tr is_binary_training h =
     (case (if \<not> use_intent_probabilities fz \<and> \<not> is_binary_training
            then bin_states_of (past_states tr)
            else Inr (map dict (past_states tr))) of
        Inl e \<Rightarrow> Inl e
      | Inr ds \<Rightarrow> (case new_dicts ds h of (refs, h') \<Rightarrow> Inr (map Some refs, h')))"

text \<open>\<open>_pad_states\<close>: the identity, overridden by the full-dialogue variant.\<close>

definition pad_states :: "featurizer \<Rightarrow> 'a option list \<Rightarrow> error + 'a option list" where
  "pad_states fz states =
     (case fz of
        FullDialogueTrackerFeaturizer _ _ ml \<Rightarrow>
          (case ml of
             None \<Rightarrow> Inl TypeError
           | Some m \<Rightarrow>
               Inr (if length states < m
                    then states @ replicate (m - length states) None
                    else states))
      | _ \<Rightarrow> Inr states)"

text \<open>
  \<open>_featurize_states\<close>: \<open>X\<close> is the nested list that \<open>np.array\<close> receives. The encoder
  is looked up for each state encoded, so a missing encoder fails only when there is a
  state to encode.
\<close>

definition encode_turn ::
  "count_vectors \<Rightarrow> featurizer \<Rightarrow> heap \<Rightarrow> turn \<Rightarrow> error + int list" where
  "encode_turn cv fz h t =
     (case state_featurizer fz of
        None \<Rightarrow> Inl AttributeError
      | Some sf \<Rightarrow> encode cv sf (content h t))"

definition featurize_states ::
  "count_vectors \<Rightarrow> featurizer \<Rightarrow> heap \<Rightarrow> turn list list
     \<Rightarrow> error + (int list list list \<times> nat list)" where
  "featurize_states cv fz h trackers_as_states =
     (case map_result
             (\<lambda>tracker_states.
                case (if length trackers_as_states > 1
                      then pad_states fz tracker_states else Inr tracker_states) of
                  Inl e \<Rightarrow> Inl e
                | Inr padded \<Rightarrow> map_result (encode_turn cv fz h) padded)
             trackers_as_states of
        Inl e \<Rightarrow> Inl e
      | Inr features \<Rightarrow> Inr (features, map length trackers_as_states))"




subsection \<open>\<open>_postprocess_trackers_as_states\<close>\<close>

text \<open>
  The body of the loop over \<open>j\<close>, with the loop variable \<open>previous_intent\<close>. A turn that
  is \<open>None\<close> or an empty dictionary is falsy and skipped.
\<close>

definition postprocess_turn ::
  "string option \<Rightarrow> turn \<Rightarrow> heap \<Rightarrow> error + (string option \<times> heap)" where
  "postprocess_turn previous_intent t h =
     (case t of
        None \<Rightarrow> Inr (previous_intent, h)
      | Some r \<Rightarrow>
          if h ! r = [] then Inr (previous_intent, h)
          else
            (case filter (\<lambda>key. startswith key ''intent_'') (keys (h ! r)) of
               [] \<Rightarrow> Inr (previous_intent, h)
             | current_intent # _ \<Rightarrow>
                 if Some current_intent = previous_intent then
                   (case delitem current_intent (h ! r) of
                      Inl e \<Rightarrow> Inl e
                    | Inr d \<Rightarrow> Inr (previous_intent, h[r := d]))
                 else Inr (Some current_intent, h)))"

fun postprocess_sequence :: "string option \<Rightarrow> turn list \<Rightarrow> heap \<Rightarrow> error + heap" where
  "postprocess_sequence previous_intent [] h = Inr h"
| "postprocess_sequence previous_intent (t # ts) h =
     (case postprocess_turn previous_intent t h of
        Inl e \<Rightarrow> Inl e
      | Inr (previous_intent', h') \<Rightarrow> postprocess_sequence previous_intent' ts h')"

fun postprocess_trackers_as_states :: "turn list list \<Rightarrow> heap \<Rightarrow> error + heap" where
  "postprocess_trackers_as_states [] h = Inr h"
| "postprocess_trackers_as_states (s # ss) h =
     (case postprocess_sequence None s h of
        Inl e \<Rightarrow> Inl e
      | Inr h' \<Rightarrow> postprocess_trackers_as_states ss h')"

subsection \<open>\<open>FullDialogueTrackerFeaturizer\<close>\<close>

text \<open>\<open>_calculate_max_len\<close>; \<open>max\<close> of a non-empty list.\<close>

fun py_max :: "nat list \<Rightarrow> nat" where
  "py_max [] = 0"  \<comment> \<open>not reached: \<open>max\<close> is called on a non-empty list only\<close>
| "py_max (x # xs) = fold max xs x"

definition calculate_max_len :: "string list list \<Rightarrow> nat option" where
  "calculate_max_len trackers_as_actions =
     (if trackers_as_actions \<noteq> [] then Some (py_max (map length trackers_as_actions))
      else None)"

text \<open>
  The loop \<open>for event in tracker.applied_events()\<close> of \<open>training_states_and_actions\<close>,
  with the loop variables \<open>delete_first_state\<close> and \<open>actions\<close>.
\<close>

fun full_events :: "bool \<Rightarrow> string list \<Rightarrow> event list \<Rightarrow> error + (bool \<times> string list)" where
  "full_events delete_first_state actions [] = Inr (delete_first_state, actions)"
| "full_events delete_first_state actions (OtherEvent # es) =
     full_events delete_first_state actions es"
| "full_events delete_first_state actions (ActionExecuted name unp # es) =
     (if \<not> unp then full_events delete_first_state (actions @ [name]) es
      else if delete_first_state then Inl Exception_two_unpredictable_actions
      else full_events True actions es)"

text \<open>
  The loop \<open>for tracker in pbar\<close>, with the lists \<open>trackers_as_states\<close> and
  \<open>trackers_as_actions\<close>; \<open>states[1:]\<close> is \<open>tl\<close> and \<open>states[:-1]\<close> is \<open>butlast\<close>, both
  leaving an empty list empty.
\<close>

fun full_trackers ::
  "featurizer \<Rightarrow> tracker list \<Rightarrow> turn list list \<times> string list list \<times> heap
     \<Rightarrow> error + (turn list list \<times> string list list \<times> heap)" where
  "full_trackers fz [] acc = Inr acc"
| "full_trackers fz (tr # trs) (trackers_as_states, trackers_as_actions, h) =
     (case create_states fz tr True h of
        Inl e \<Rightarrow> Inl e
      | Inr (states, h') \<Rightarrow>
          (case full_events False [] (applied_events tr) of
             Inl e \<Rightarrow> Inl e
           | Inr (delete_first_state, actions) \<Rightarrow>
               full_trackers fz trs
                 (trackers_as_states @ [butlast (if delete_first_state then tl states else states)],
                  trackers_as_actions @ [actions], h')))"

definition full_training_states_and_actions ::
  "featurizer \<Rightarrow> tracker list \<Rightarrow> heap
     \<Rightarrow> error + (featurizer \<times> turn list list \<times> string list list \<times> heap)" where
  "full_training_states_and_actions fz trackers h =
     (case full_trackers fz trackers ([], [], h) of
        Inl e \<Rightarrow> Inl e
      | Inr (trackers_as_states, trackers_as_actions, h') \<Rightarrow>
          Inr (FullDialogueTrackerFeaturizer (state_featurizer fz) (use_intent_probabilities fz)
                 (calculate_max_len trackers_as_actions),
               trackers_as_states, trackers_as_actions, h'))"

text \<open>The list comprehension \<open>[self._create_states(tracker, domain) for tracker in trackers]\<close>\<close>

fun create_all_states ::
  "featurizer \<Rightarrow> tracker list \<Rightarrow> heap \<Rightarrow> error + (turn list list \<times> heap)" where
  "create_all_states fz [] h = Inr ([], h)"
| "create_all_states fz (tr # trs) h =
     (case create_states fz tr False h of
        Inl e \<Rightarrow> Inl e
      | Inr (states, h') \<Rightarrow>
          (case create_all_states fz trs h' of
             Inl e \<Rightarrow> Inl e
           | Inr (rest, h'') \<Rightarrow> Inr (states # rest, h'')))"

subsection \<open>\<open>MaxHistoryTrackerFeaturizer\<close>\<close>

definition slice_state_history :: "'a option list \<Rightarrow> int \<Rightarrow> 'a option list" where
  "slice_state_history states slice_length =
     (let slice_end = int (length states);
          slice_start = max 0 (slice_end - slice_length);
          padding = replicate (nat (max 0 (slice_length - slice_end))) None
      in padding @ drop (nat slice_start) states)"

text \<open>
  \<open>_hash_example\<close>: the built-in \<open>hash\<close> is a parameter; it receives the tuple of the frozen
  states (\<open>None\<close>, or the \<open>frozenset\<close> of the items) and the tuple \<open>(action,)\<close>.
\<close>

type_synonym hash_fn = "(string \<times> real) set option list \<times> string list \<Rightarrow> int"

definition frozen_states :: "heap \<Rightarrow> turn list \<Rightarrow> (string \<times> real) set option list" where
  "frozen_states h states = map (\<lambda>s. map_option set (content h s)) states"

definition hash_example :: "hash_fn \<Rightarrow> heap \<Rightarrow> turn list \<Rightarrow> string \<Rightarrow> int" where
  "hash_example py_hash h states action = py_hash (frozen_states h states, [action])"

text \<open>
  The built-in \<open>hash\<close> on the values that \<open>_hash_example\<close> builds, as CPython computes
  it: the hash of a tuple from the hashes of its elements, in order; the hash of a
  \<open>frozenset\<close> from the hashes of its entries, whatever their order; the hash of a float
  that is a small integer is that integer, except that \<open>-1\<close> hashes to \<open>-2\<close> (the hashing
  of numeric types of the language reference: \<open>hash(-1.0) == hash(-2.0) == -2\<close>). The
  hash of a string, which changes with the process, the hash of \<open>None\<close>, the hash of any
  other float and the two combining functions are parameters.
\<close>

record hash_parts =
  hash_str :: "string \<Rightarrow> int"
  hash_None :: int
  hash_tuple :: "int list \<Rightarrow> int"
  hash_frozenset :: "int multiset \<Rightarrow> int"
  hash_other_float :: "real \<Rightarrow> int"

definition hash_float :: "hash_parts \<Rightarrow> real \<Rightarrow> int" where
  "hash_float p x =
     (if x = of_int \<lfloor>x\<rfloor> \<and> \<bar>x\<bar> < 2 ^ 31 - 1
      then (if \<lfloor>x\<rfloor> = - 1 then - 2 else \<lfloor>x\<rfloor>)
      else hash_other_float p x)"

definition python_hash :: "hash_parts \<Rightarrow> hash_fn" where
  "python_hash p ex =
     hash_tuple p
       [hash_tuple p
          (map (\<lambda>s. case s of
                      None \<Rightarrow> hash_None p
                    | Some items \<Rightarrow>
                        hash_frozenset p
                          (image_mset
                             (\<lambda>item. hash_tuple p [hash_str p (fst item), hash_float p (snd item)])
                             (mset_set items)))
             (fst ex)),
        hash_tuple p (map (hash_str p) (snd ex))]"

text \<open>
  The body of \<open>if not event.unpredictable\<close>: the example is appended unless its hash was
  seen. The accumulator is \<open>hashed_examples\<close>, \<open>trackers_as_states\<close>,
  \<open>trackers_as_actions\<close>.
\<close>

type_synonym examples = "int set \<times> turn list list \<times> string list list"

definition add_example ::
  "hash_fn \<Rightarrow> featurizer \<Rightarrow> heap \<Rightarrow> turn list \<Rightarrow> string \<Rightarrow> examples \<Rightarrow> examples" where
  "add_example py_hash fz h sliced_states name acc =
     (case acc of (hashed_examples, trackers_as_states, trackers_as_actions) \<Rightarrow>
        if remove_duplicates fz then
          (let hashed = hash_example py_hash h sliced_states name
           in if hashed \<notin> hashed_examples
              then (insert hashed hashed_examples,
                    trackers_as_states @ [sliced_states], trackers_as_actions @ [[name]])
              else acc)
        else (hashed_examples,
              trackers_as_states @ [sliced_states], trackers_as_actions @ [[name]]))"

text \<open>The loop over the events of one tracker, with the counter \<open>idx\<close>.\<close>

fun max_history_events ::
  "hash_fn \<Rightarrow> featurizer \<Rightarrow> heap \<Rightarrow> turn list \<Rightarrow> nat \<Rightarrow> examples \<Rightarrow> event list \<Rightarrow> examples" where
  "max_history_events py_hash fz h states idx acc [] = acc"
| "max_history_events py_hash fz h states idx acc (OtherEvent # es) =
     max_history_events py_hash fz h states idx acc es"
| "max_history_events py_hash fz h states idx acc (ActionExecuted name unp # es) =
     max_history_events py_hash fz h states (idx + 1)
       (if \<not> unp
        then add_example py_hash fz h
               (slice_state_history (take (idx + 1) states) (max_history fz)) name acc
        else acc)
       es"

fun max_history_trackers ::
  "hash_fn \<Rightarrow> featurizer \<Rightarrow> tracker list \<Rightarrow> examples \<times> heap \<Rightarrow> error + (examples \<times> heap)" where
  "max_history_trackers py_hash fz [] acc = Inr acc"
| "max_history_trackers py_hash fz (tr # trs) (ex, h) =
     (case create_states fz tr True h of
        Inl e \<Rightarrow> Inl e
      | Inr (states, h') \<Rightarrow>
          max_history_trackers py_hash fz trs
            (max_history_events py_hash fz h' states 0 ex (applied_events tr), h'))"

definition max_history_training_states_and_actions ::
  "hash_fn \<Rightarrow> featurizer \<Rightarrow> tracker list \<Rightarrow> heap
     \<Rightarrow> error + (featurizer \<times> turn list list \<times> string list list \<times> heap)" where
  "max_history_training_states_and_actions py_hash fz trackers h =
     (case max_history_trackers py_hash fz trackers (({}, [], []), h) of
        Inl e \<Rightarrow> Inl e
      | Inr ((hashed_examples, trackers_as_states, trackers_as_actions), h') \<Rightarrow>
          Inr (fz, trackers_as_states, trackers_as_actions, h'))"

subsection \<open>The methods dispatched on the class\<close>

definition training_states_and_actions ::
  "hash_fn \<Rightarrow> featurizer \<Rightarrow> tracker list \<Rightarrow> heap
     \<Rightarrow> error + (featurizer \<times> turn list list \<times> string list list \<times> heap)" where
  "training_states_and_actions py_hash fz trackers h =
     (case fz of
        TrackerFeaturizer _ _ \<Rightarrow> Inl NotImplementedError
      | FullDialogueTrackerFeaturizer _ _ _ \<Rightarrow> full_training_states_and_actions fz trackers h
      | MaxHistoryTrackerFeaturizer _ _ _ _ \<Rightarrow>
          max_history_training_states_and_actions py_hash fz trackers h)"

definition prediction_states ::
  "featurizer \<Rightarrow> tracker list \<Rightarrow> heap \<Rightarrow> error + (turn list list \<times> heap)" where
  "prediction_states fz trackers h =
     (case fz of
        TrackerFeaturizer _ _ \<Rightarrow> Inl NotImplementedError
      | FullDialogueTrackerFeaturizer _ _ _ \<Rightarrow> create_all_states fz trackers h
      | MaxHistoryTrackerFeaturizer _ _ mh _ \<Rightarrow>
          (case create_all_states fz trackers h of
             Inl e \<Rightarrow> Inl e
           | Inr (trackers_as_states, h') \<Rightarrow>
               Inr (map (\<lambda>states. slice_state_history states mh) trackers_as_states, h')))"




subsection \<open>\<open>TrackerFeaturizer.load\<close>\<close>

text \<open>
  The file system maps the path of a regular file to its text; \<open>jsonpickle.decode\<close> is a
  parameter; the log is the list of the messages written with \<open>logger.error\<close>.
\<close>

definition os_path_join :: "string \<Rightarrow> string \<Rightarrow> string" where
  "os_path_join path name =
     (if path = [] \<or> last path = CHR ''/'' then path @ name else path @ ''/'' @ name)"

definition load ::
  "(string \<Rightarrow> featurizer) \<Rightarrow> (string \<rightharpoonup> string) \<Rightarrow> string list \<Rightarrow> string
     \<Rightarrow> featurizer option \<times> string list" where
  "load decode fs lg path =
     (let featurizer_file = os_path_join path ''featurizer.json''
      in case fs featurizer_file of
           Some text \<Rightarrow> (Some (decode text), lg)
         | None \<Rightarrow>
             (None,
              lg @ [''Couldn't load featurizer for policy. File '' @ [CHR 0x27]
                       @ featurizer_file @ [CHR 0x27] @ '' doesn't exist.'']))"

subsection \<open>Vocabulary of the statements\<close>

text \<open>
  The executed actions of an event list, in order: the events for which
  \<open>isinstance(event, ActionExecuted)\<close> holds, each with its name and its flag
  \<open>unpredictable\<close>.
\<close>

fun executed_actions :: "event list \<Rightarrow> (string \<times> bool) list" where
  "executed_actions [] = []"
| "executed_actions (OtherEvent # es) = executed_actions es"
| "executed_actions (ActionExecuted name unp # es) = (name, unp) # executed_actions es"

definition predictable_actions :: "event list \<Rightarrow> string list" where
  "predictable_actions es = map fst (filter (\<lambda>a. \<not> snd a) (executed_actions es))"

definition unpredictable_count :: "event list \<Rightarrow> nat" where
  "unpredictable_count es = length (filter snd (executed_actions es))"

text \<open>
  The state sequence that the full-dialogue variant keeps of a tracker: the copies of its
  states without the first one when an action is unpredictable, and without the last one.
\<close>

definition states_of :: "tracker \<Rightarrow> pydict option list" where
  "states_of tr = butlast ((if 1 \<le> unpredictable_count (applied_events tr) then tl else id)
                     (map Some (map dict (past_states tr))))"

definition valid_refs :: "heap \<Rightarrow> turn list \<Rightarrow> bool" where
  "valid_refs h ts = (\<forall>r. Some r \<in> set ts \<longrightarrow> r < length h)"

text \<open>
  A feature whose name starts with \<open>intent_\<close>; the running best intent of the loop of
  \<open>_create_states\<close> without the dictionary; and what the loop variables \<open>best_intent\<close>
  and \<open>best_intent_prob\<close> mean after the items \<open>pre\<close>: no intent above \<open>-1.0\<close> so far,
  or the first item of greatest weight among the intents.
\<close>

definition intent_feature :: "string \<times> real \<Rightarrow> bool" where
  "intent_feature p = startswith (fst p) ''intent_''"

fun best_of :: "string option \<times> real \<Rightarrow> state \<Rightarrow> string option \<times> real" where
  "best_of b [] = b"
| "best_of b (p # rest) =
     (if intent_feature p \<and> snd p > snd b then best_of (Some (fst p), snd p) rest
      else best_of b rest)"

definition best_so_far :: "state \<Rightarrow> string option \<times> real \<Rightarrow> bool" where
  "best_so_far pre b =
     (case fst b of
        None \<Rightarrow> snd b = - 1 \<and> (\<forall>p \<in> set pre. intent_feature p \<longrightarrow> snd p \<le> - 1)
      | Some k \<Rightarrow> snd b > - 1 \<and> intent_feature (k, snd b)
          \<and> (\<exists>xs ys. pre = xs @ (k, snd b) # ys
                \<and> (\<forall>p \<in> set xs. intent_feature p \<longrightarrow> snd p < snd b)
                \<and> (\<forall>p \<in> set ys. intent_feature p \<longrightarrow> snd p \<le> snd b)))"

text \<open>
  The first key of a turn's dictionary that starts with \<open>intent_\<close> (\<open>current_intent[0]\<close>
  in \<open>_postprocess_trackers_as_states\<close>); there is none for \<open>None\<close>, for an empty
  dictionary and for a dictionary without such a key. The references of a sequence.
\<close>

definition first_intent :: "heap \<Rightarrow> turn \<Rightarrow> string option" where
  "first_intent h t =
     (case t of
        None \<Rightarrow> None
      | Some r \<Rightarrow>
          (case filter (\<lambda>key. startswith key ''intent_'') (keys (h ! r)) of
             [] \<Rightarrow> None
           | k # _ \<Rightarrow> Some k))"

fun refs_of :: "turn list \<Rightarrow> ref list" where
  "refs_of [] = []"
| "refs_of (None # ts) = refs_of ts"
| "refs_of (Some r # ts) = r # refs_of ts"

text \<open>
  The value of \<open>previous_intent\<close> after a list of turns, and the key that the loop deletes
  from the dictionary at an address, both read from one store.
\<close>

fun last_intent :: "heap \<Rightarrow> string option \<Rightarrow> turn list \<Rightarrow> string option" where
  "last_intent h prev [] = prev"
| "last_intent h prev (t # ts) =
     last_intent h (case first_intent h t of None \<Rightarrow> prev | Some k \<Rightarrow> Some k) ts"

fun deleted_key :: "heap \<Rightarrow> string option \<Rightarrow> turn list \<Rightarrow> ref \<Rightarrow> string option" where
  "deleted_key h prev [] a = None"
| "deleted_key h prev (t # ts) a =
     (case first_intent h t of
        None \<Rightarrow> deleted_key h prev ts a
      | Some k \<Rightarrow>
          if Some k = prev
          then (if t = Some a then Some k else deleted_key h prev ts a)
          else deleted_key h (Some k) ts a)"

text \<open>
  The elements of a list whose key no earlier element has (and that is not in \<open>seen\<close>);
  the hash of an example, a window with its list of labels, read from a store; and the
  relation that the loops of the max-history variant keep between a run that removes
  duplicates and the run that does not.
\<close>

fun first_by_hash :: "('a \<Rightarrow> int) \<Rightarrow> int set \<Rightarrow> 'a list \<Rightarrow> 'a list" where
  "first_by_hash f seen [] = []"
| "first_by_hash f seen (x # xs) =
     (if f x \<in> seen then first_by_hash f seen xs
      else x # first_by_hash f (insert (f x) seen) xs)"

definition example_hash :: "hash_fn \<Rightarrow> heap \<Rightarrow> turn list \<times> string list \<Rightarrow> int" where
  "example_hash H h ex = H (frozen_states h (fst ex), snd ex)"

definition dedup_rel :: "hash_fn \<Rightarrow> heap \<Rightarrow> examples \<Rightarrow> examples \<Rightarrow> bool" where
  "dedup_rel H h acc acc0 =
     (case acc of (hs, S, A) \<Rightarrow> case acc0 of (hs0, S0, A0) \<Rightarrow>
        length A = length S \<and> length A0 = length S0
        \<and> (\<forall>w \<in> set S0. valid_refs h w)
        \<and> zip S A = first_by_hash (example_hash H h) {} (zip S0 A0)
        \<and> hs = example_hash H h ` set (zip S0 A0))"

section \<open>Properties\<close>

subsection \<open>Window length of the max-history variant\<close>

lemma length_slice_state_history:
  "0 \<le> n \<Longrightarrow> length (slice_state_history states n) = nat n"
  by (simp add: slice_state_history_def Let_def)

lemma slice_state_history_short:
  "int (length states) \<le> n \<Longrightarrow>
     slice_state_history states n = replicate (nat n - length states) None @ states"
  by (simp add: slice_state_history_def Let_def nat_diff_distrib')

lemma slice_state_history_long:
  "0 \<le> n \<Longrightarrow> n \<le> int (length states) \<Longrightarrow>
     slice_state_history states n = drop (length states - nat n) states"
  by (simp add: slice_state_history_def Let_def nat_diff_distrib')

text \<open>In binary mode \<open>_create_states\<close> copies every state into a new dictionary.\<close>

lemma create_states_binary:
  "create_states fz tr True h =
     Inr (map Some [length h ..< length h + length (past_states tr)],
          h @ map dict (past_states tr))"
  by (simp add: create_states_def new_dicts_def)

text \<open>Invariants of the two loops of the max-history variant.\<close>

lemma max_history_events_invariant:
  assumes "P acc"
    and "\<And>idx name acc. P acc \<Longrightarrow>
           P (add_example H fz h
                (slice_state_history (take (idx + 1) states) (max_history fz)) name acc)"
  shows "P (max_history_events H fz h states idx acc es)"
  using assms(1)
proof (induction es arbitrary: idx acc)
  case Nil
  then show ?case by simp
next
  case (Cons e es)
  show ?case
  proof (cases e)
    case (ActionExecuted name unp)
    with Cons assms(2) show ?thesis by simp
  next
    case OtherEvent
    with Cons show ?thesis by simp
  qed
qed

lemma max_history_trackers_invariant:
  assumes "P ex h"
    and "\<And>tr ex h. P ex h \<Longrightarrow> tr \<in> set trs \<Longrightarrow>
           P (max_history_events H fz (h @ map dict (past_states tr))
                (map Some [length h ..< length h + length (past_states tr)]) 0 ex
                (applied_events tr))
             (h @ map dict (past_states tr))"
  shows "\<exists>ex' h'. max_history_trackers H fz trs (ex, h) = Inr (ex', h') \<and> P ex' h'"
  using assms
proof (induction trs arbitrary: ex h)
  case Nil
  then show ?case by simp
next
  case (Cons tr trs)
  have "P (max_history_events H fz (h @ map dict (past_states tr))
                (map Some [length h ..< length h + length (past_states tr)]) 0 ex
                (applied_events tr))
             (h @ map dict (past_states tr))"
    using Cons.prems by simp
  from Cons.IH[OF this] Cons.prems(2) show ?case
    by (simp add: create_states_binary)
qed

lemma add_example_windows:
  "set (fst (snd (add_example H fz h w name acc))) \<subseteq> insert w (set (fst (snd acc)))"
  by (cases acc) (auto simp: add_example_def Let_def)

lemma training_window_lengths:
  assumes "0 \<le> mh"
    and "training_states_and_actions H (MaxHistoryTrackerFeaturizer sf uip mh rd) trackers h
           = Inr (fz', S, A, h')"
  shows "\<forall>w \<in> set S. length w = nat mh"
proof -
  let ?fz = "MaxHistoryTrackerFeaturizer sf uip mh rd"
  let ?P = "\<lambda>(ex::examples) (h::heap). \<forall>w \<in> set (fst (snd ex)). length w = nat mh"
  have step: "?P (add_example H ?fz h
                    (slice_state_history (take (idx + 1) states) (max_history ?fz)) name acc) h"
    if "?P acc h" for h states idx name acc
  proof
    fix w assume "w \<in> set (fst (snd (add_example H ?fz h
        (slice_state_history (take (idx + 1) states) (max_history ?fz)) name acc)))"
    then have "w = slice_state_history (take (idx + 1) states) mh \<or> w \<in> set (fst (snd acc))"
      using add_example_windows[of H ?fz h _ name acc] by auto
    then show "length w = nat mh"
      using that length_slice_state_history[OF assms(1)] by auto
  qed
  have "\<exists>ex' h'. max_history_trackers H ?fz trackers (({}, [], []), h) = Inr (ex', h')
          \<and> ?P ex' h'"
    by (rule max_history_trackers_invariant[where P = ?P])
       (simp, rule max_history_events_invariant[where P = "\<lambda>ex. ?P ex h" for h],
        assumption, rule step)
  then obtain hs' S' A' h'' where
    run: "max_history_trackers H ?fz trackers (({}, [], []), h) = Inr ((hs', S', A'), h'')"
    and len: "\<forall>w \<in> set S'. length w = nat mh"
    by (metis fst_conv snd_conv prod_cases3)
  from assms(2) run have "S = S'"
    by (simp add: training_states_and_actions_def max_history_training_states_and_actions_def)
  with len show ?thesis by simp
qed

text \<open>The max-history variant raises nowhere in \<open>training_states_and_actions\<close>.\<close>

lemma max_history_training_total:
  "\<exists>S A h'. training_states_and_actions H (MaxHistoryTrackerFeaturizer sf uip mh rd) trackers h
      = Inr (MaxHistoryTrackerFeaturizer sf uip mh rd, S, A, h')"
proof -
  let ?fz = "MaxHistoryTrackerFeaturizer sf uip mh rd"
  have "\<exists>ex' h'. max_history_trackers H ?fz trackers (({}, [], []), h) = Inr (ex', h') \<and> True"
    by (rule max_history_trackers_invariant[where P = "\<lambda>_ _. True"]) simp_all
  then obtain hs' S' A' h'' where
    "max_history_trackers H ?fz trackers (({}, [], []), h) = Inr ((hs', S', A'), h'')"
    by (metis prod_cases3)
  then show ?thesis
    by (simp add: training_states_and_actions_def max_history_training_states_and_actions_def)
qed

lemma prediction_windows_length:
  assumes "0 \<le> mh"
    and "prediction_states (MaxHistoryTrackerFeaturizer sf uip mh rd) trackers h = Inr (S, h')"
  shows "\<forall>w \<in> set S. length w = nat mh"
  using assms
  by (auto simp: prediction_states_def length_slice_state_history split: sum.splits)

text \<open>
  Claim C2. For a slice length \<open>mh \<ge> 0\<close>, \<open>slice_state_history\<close> returns exactly \<open>mh\<close>
  entries: a shorter input is padded with \<open>None\<close> on the left, of a longer input the most
  recent \<open>mh\<close> entries are kept. Hence \<open>training_states_and_actions\<close> of the max-history
  variant (which always returns) and \<open>prediction_states\<close> (whenever it returns) emit
  windows of length \<open>max_history\<close> only.
\<close>

theorem max_history_window_length:
  assumes "0 \<le> mh"
  shows "length (slice_state_history states mh) = nat mh
    \<and> (int (length states) \<le> mh \<longrightarrow>
         slice_state_history states mh = replicate (nat mh - length states) None @ states)
    \<and> (mh \<le> int (length states) \<longrightarrow>
         slice_state_history states mh = drop (length states - nat mh) states)
    \<and> (\<exists>S A h'. training_states_and_actions H
                     (MaxHistoryTrackerFeaturizer sf uip mh rd) trackers h
                   = Inr (MaxHistoryTrackerFeaturizer sf uip mh rd, S, A, h')
                 \<and> (\<forall>w \<in> set S. length w = nat mh))
    \<and> (\<forall>S h'. prediction_states (MaxHistoryTrackerFeaturizer sf uip mh rd) trackers h
                   = Inr (S, h')
                 \<longrightarrow> (\<forall>w \<in> set S. length w = nat mh))"
  using assms length_slice_state_history[OF assms] slice_state_history_short
    slice_state_history_long[OF assms] max_history_training_total
    training_window_lengths[OF assms] prediction_windows_length[OF assms]
  by metis

theorem max_history_window_length_witness:
  "(0::int) \<le> 2
   \<and> slice_state_history [Some (7::nat)] 2 = [None, Some 7]
   \<and> slice_state_history [Some (7::nat), Some 8, Some 9] 2 = [Some 8, Some 9]
   \<and> training_states_and_actions (\<lambda>_. 0) (MaxHistoryTrackerFeaturizer None False 2 False)
        [\<lparr>past_states = [[(''intent_greet'', 1)], [(''prev_utter_greet'', 1)],
                          [(''intent_bye'', 1)], []],
          applied_events = [ActionExecuted ''utter_greet'' False, OtherEvent,
                            ActionExecuted ''action_listen'' False,
                            ActionExecuted ''utter_bye'' False]\<rparr>] []
       = Inr (MaxHistoryTrackerFeaturizer None False 2 False,
              [[None, Some 0], [Some 0, Some 1], [Some 1, Some 2]],
              [[''utter_greet''], [''action_listen''], [''utter_bye'']],
              [[(''intent_greet'', 1)], [(''prev_utter_greet'', 1)], [(''intent_bye'', 1)], []])
   \<and> map length [[None, Some 0], [Some 0, Some 1], [Some (1::nat), Some 2]] = [2, 2, 2]"
proof -
  have run: "training_states_and_actions (\<lambda>_. 0) (MaxHistoryTrackerFeaturizer None False 2 False)
        [\<lparr>past_states = [[(''intent_greet'', 1)], [(''prev_utter_greet'', 1)],
                          [(''intent_bye'', 1)], []],
          applied_events = [ActionExecuted ''utter_greet'' False, OtherEvent,
                            ActionExecuted ''action_listen'' False,
                            ActionExecuted ''utter_bye'' False]\<rparr>] []
       = Inr (MaxHistoryTrackerFeaturizer None False 2 False,
              [[None, Some 0], [Some 0, Some 1], [Some 1, Some 2]],
              [[''utter_greet''], [''action_listen''], [''utter_bye'']],
              [[(''intent_greet'', 1)], [(''prev_utter_greet'', 1)], [(''intent_bye'', 1)], []])"
    by code_simp
  have short: "slice_state_history [Some (7::nat)] 2 = [None, Some 7]"
    using max_history_window_length[of 2 "[Some (7::nat)]"] by (simp add: numeral_2_eq_2)
  have long: "slice_state_history [Some (7::nat), Some 8, Some 9] 2 = [Some 8, Some 9]"
    using max_history_window_length[of 2 "[Some (7::nat), Some 8, Some 9]"] by simp
  from run short long show ?thesis by simp
qed

subsection \<open>Sentinel vectors and one-hot labels\<close>

text \<open>
  Claim C7. \<open>encode(None)\<close> of a trained encoder is the vector of \<open>-1\<close> of the length of
  the vocabulary; \<open>action_as_one_hot(None, domain)\<close> is the vector of \<open>-1\<close> of length
  \<open>num_actions\<close>; for an action that the domain maps to an index \<open>i\<close> below \<open>num_actions\<close>
  the result has length \<open>num_actions\<close>, its only \<open>1\<close> at \<open>i\<close> and \<open>0\<close> elsewhere.
\<close>

theorem sentinel_and_one_hot:
  "encode cv (BOWSingleStateFeaturizer (Some vocab)) None = Inr (replicate (length vocab) (- 1))
   \<and> action_as_one_hot None dmn = Inr (replicate (num_actions dmn) (- 1))
   \<and> (index_for_action dmn name = Some i \<and> i < num_actions dmn \<longrightarrow>
        (\<exists>y. action_as_one_hot (Some name) dmn = Inr y
           \<and> length y = num_actions dmn
           \<and> {j. j < length y \<and> y ! j = 1} = {i}
           \<and> (\<forall>j < length y. j \<noteq> i \<longrightarrow> y ! j = 0)))"
  by (auto simp: encode_def action_as_one_hot_def nth_list_update)

theorem sentinel_and_one_hot_witness:
  "index_for_action \<lparr>num_actions = 3, index_for_action = [''listen'' \<mapsto> 0, ''greet'' \<mapsto> 1, ''bye'' \<mapsto> 2],
       input_states = []\<rparr> ''greet'' = Some 1
   \<and> (1::nat) < num_actions \<lparr>num_actions = 3,
       index_for_action = [''listen'' \<mapsto> 0, ''greet'' \<mapsto> 1, ''bye'' \<mapsto> 2], input_states = []\<rparr>
   \<and> action_as_one_hot (Some ''greet'') \<lparr>num_actions = 3,
       index_for_action = [''listen'' \<mapsto> 0, ''greet'' \<mapsto> 1, ''bye'' \<mapsto> 2], input_states = []\<rparr>
       = Inr [0, 1, 0]
   \<and> {j. j < length [0, 1, 0::int] \<and> [0, 1, 0::int] ! j = 1} = {1}
   \<and> action_as_one_hot None \<lparr>num_actions = 3,
       index_for_action = [''listen'' \<mapsto> 0, ''greet'' \<mapsto> 1, ''bye'' \<mapsto> 2], input_states = []\<rparr>
       = Inr [- 1, - 1, - 1]
   \<and> encode \<lparr>CLS_TOKEN = ''__CLS__'', train = (\<lambda>ms. ms), create_sequence = (\<lambda>voc msg. [])\<rparr>
        (BOWSingleStateFeaturizer (Some [''intent'', ''greet''])) None = Inr [- 1, - 1]"
  using sentinel_and_one_hot[of
      "\<lparr>CLS_TOKEN = ''__CLS__'', train = (\<lambda>ms. ms), create_sequence = (\<lambda>voc msg. [])\<rparr>"
      "[''intent'', ''greet'']"
      "\<lparr>num_actions = 3, index_for_action = [''listen'' \<mapsto> 0, ''greet'' \<mapsto> 1, ''bye'' \<mapsto> 2],
        input_states = []\<rparr>"
      "''greet''" 1]
  by (auto simp: action_as_one_hot_def numeral_3_eq_3 numeral_2_eq_2)

subsection \<open>Loading a persisted featurizer\<close>

text \<open>
  Claim C8. When there is no file \<open>featurizer.json\<close> under the path, \<open>load\<close> returns
  \<open>None\<close> and writes one error message to the log; when the file exists it returns the
  featurizer decoded from the text of the file and logs nothing.
\<close>

theorem load_missing_file:
  "(fs (os_path_join path ''featurizer.json'') = None \<longrightarrow>
      (\<exists>msg. load decode fs lg path = (None, lg @ [msg])))
   \<and> (\<forall>text. fs (os_path_join path ''featurizer.json'') = Some text \<longrightarrow>
      load decode fs lg path = (Some (decode text), lg))"
  by (simp add: load_def Let_def)

theorem load_missing_file_witness:
  "Map.empty (os_path_join ''models'' ''featurizer.json'') = None
   \<and> fst (load (\<lambda>text. TrackerFeaturizer None False) Map.empty [] ''models'') = None
   \<and> length (snd (load (\<lambda>text. TrackerFeaturizer None False) Map.empty [] ''models'')) = 1
   \<and> [''models/featurizer.json'' \<mapsto> ''{}''] (os_path_join ''models'' ''featurizer.json'')
       = Some ''{}''
   \<and> load (\<lambda>text. TrackerFeaturizer None False) [''models/featurizer.json'' \<mapsto> ''{}''] []
        ''models''
       = (Some (TrackerFeaturizer None False), [])"
  using load_missing_file[of Map.empty "''models''" "\<lambda>text. TrackerFeaturizer None False" "[]"]
    load_missing_file[of "[''models/featurizer.json'' \<mapsto> ''{}'']" "''models''"
      "\<lambda>text. TrackerFeaturizer None False" "[]"]
  by (auto simp: os_path_join_def)

subsection \<open>\<open>_create_states\<close>: the best intent of a turn\<close>

text \<open>\<open>dict(state)\<close> of items with distinct keys holds the items in their order.\<close>

lemma setitem_new: "k \<notin> fst ` set d \<Longrightarrow> setitem k v d = d @ [(k, v)]"
  by (induction d) auto

lemma dict_distinct_aux:
  "distinct (map fst (acc @ st)) \<Longrightarrow>
     foldl (\<lambda>d p. setitem (fst p) (snd p) d) acc st = acc @ st"
proof (induction st arbitrary: acc)
  case Nil
  then show ?case by simp
next
  case (Cons p st)
  then have "fst p \<notin> fst ` set acc" by auto
  then have "setitem (fst p) (snd p) acc = acc @ [p]"
    by (simp add: setitem_new)
  with Cons.IH[of "acc @ [p]"] Cons.prems show ?case by simp
qed

lemma dict_distinct: "distinct (map fst st) \<Longrightarrow> dict st = st"
  using dict_distinct_aux[of "[]" st] by (simp add: dict_def)

lemma setitem_middle:
  "k \<notin> fst ` set xs \<Longrightarrow> setitem k v (xs @ (k, w) # ys) = xs @ (k, v) # ys"
  by (induction xs) auto

lemma intent_feature_key: "intent_feature (k, v) = intent_feature (k, w)"
  by (simp add: intent_feature_def)

text \<open>
  The dictionary after the loop: the items of the state, without the intent features
  other than the final best intent.
\<close>

lemma best_of_key:
  "fst (best_of b rest) = fst b \<or> (\<exists>k \<in> fst ` set rest. fst (best_of b rest) = Some k)"
  by (induction b rest rule: best_of.induct) auto

lemma delitem_present: "k \<in> fst ` set d \<Longrightarrow> delitem k d = Inr (filter (\<lambda>p. fst p \<noteq> k) d)"
  by (simp add: delitem_def keys_def)

lemma best_intent_loop_filter:
  assumes "distinct (map fst rest)"
    and "fst ` set rest \<subseteq> fst ` set d"
    and "\<forall>b. best = Some b \<longrightarrow> b \<in> fst ` set d \<and> b \<notin> fst ` set rest"
  shows "best_intent_loop (d, best, bp) rest =
     Inr (filter (\<lambda>p. Some (fst p) = fst (best_of (best, bp) rest)
                       \<or> \<not> (Some (fst p) = best
                             \<or> (intent_feature p \<and> fst p \<in> fst ` set rest))) d,
          best_of (best, bp) rest)"
  using assms
proof (induction rest arbitrary: d best bp)
  case Nil
  then show ?case by (auto intro!: filter_True[symmetric] simp: split_paired_all)
next
  case (Cons item rest)
  obtain k v where item: "item = (k, v)" by (cases item)
  have kd: "k \<in> fst ` set d" and kr: "k \<notin> fst ` set rest" and dr: "distinct (map fst rest)"
    and sub: "fst ` set rest \<subseteq> fst ` set d"
    using Cons.prems item by auto
  have bk: "best \<noteq> Some k" using Cons.prems(3) item by auto
  show ?case
  proof (cases "intent_feature item")
    case False
    then have step: "best_intent_step (d, best, bp) item = Inr (d, best, bp)"
      by (simp add: best_intent_step_def intent_feature_def item)
    have 3: "\<forall>b. best = Some b \<longrightarrow> b \<in> fst ` set d \<and> b \<notin> fst ` set rest"
      using Cons.prems(3) by auto
    show ?thesis
      using Cons.IH[OF dr sub 3, of bp] step False
      by (auto intro!: filter_cong simp: intent_feature_def item)
  next
    case True
    show ?thesis
    proof (cases "v > bp")
      case False
      have step: "best_intent_step (d, best, bp) item
                    = Inr (filter (\<lambda>p. fst p \<noteq> k) d, best, bp)"
        using True False kd
        by (simp add: best_intent_step_def intent_feature_def item delitem_present)
      have 2: "fst ` set rest \<subseteq> fst ` set (filter (\<lambda>p. fst p \<noteq> k) d)"
        using sub kr by force
      have 3: "\<forall>b. best = Some b \<longrightarrow>
                 b \<in> fst ` set (filter (\<lambda>p. fst p \<noteq> k) d) \<and> b \<notin> fst ` set rest"
        using Cons.prems(3) item by force
      have nk: "fst (best_of (best, bp) rest) \<noteq> Some k"
        using best_of_key[of "(best, bp)" rest] bk kr by force
      show ?thesis
        using Cons.IH[OF dr 2 3, of bp] step True False nk
        by (auto intro!: filter_cong simp: item intent_feature_def)
    next
      case gt: True
      show ?thesis
      proof (cases best)
        case None
        have step: "best_intent_step (d, best, bp) item = Inr (d, Some k, v)"
          using True gt None
          by (simp add: best_intent_step_def intent_feature_def item)
        have 3: "\<forall>b. Some k = Some b \<longrightarrow> b \<in> fst ` set d \<and> b \<notin> fst ` set rest"
          using kd kr by auto
        show ?thesis
          using Cons.IH[OF dr sub 3, of v] step True gt None
          by (auto intro!: filter_cong simp: item intent_feature_def)
      next
        case (Some b)
        have bd: "b \<in> fst ` set d" and bne: "b \<noteq> k" and br: "b \<notin> fst ` set rest"
          using Cons.prems(3) Some item by auto
        have step: "best_intent_step (d, best, bp) item
                      = Inr (filter (\<lambda>p. fst p \<noteq> b) d, Some k, v)"
          using True gt Some bd
          by (simp add: best_intent_step_def intent_feature_def item delitem_present)
        have 2: "fst ` set rest \<subseteq> fst ` set (filter (\<lambda>p. fst p \<noteq> b) d)"
          using sub br by force
        have 3: "\<forall>b'. Some k = Some b' \<longrightarrow>
                   b' \<in> fst ` set (filter (\<lambda>p. fst p \<noteq> b) d) \<and> b' \<notin> fst ` set rest"
          using kd kr bne by force
        have nb: "fst (best_of (Some k, v) rest) \<noteq> Some b"
          using best_of_key[of "(Some k, v)" rest] bne br by force
        show ?thesis
          using Cons.IH[OF dr 2 3, of v] step True gt Some nb
          by (auto intro!: filter_cong simp: item intent_feature_def)
      qed
    qed
  qed
qed

text \<open>The best intent is the first intent feature of greatest weight, if above \<open>-1.0\<close>.\<close>

lemma best_so_far_new:
  assumes "best_so_far pre b" and "intent_feature p" and "snd p > snd b"
  shows "best_so_far (pre @ [p]) (Some (fst p), snd p)"
proof -
  have ge: "snd b \<ge> - 1"
    using assms(1) by (auto simp: best_so_far_def split: option.splits)
  have below: "\<forall>q \<in> set pre. intent_feature q \<longrightarrow> snd q \<le> snd b"
    using assms(1) by (fastforce simp: best_so_far_def split: option.splits)
  have "\<forall>q \<in> set pre. intent_feature q \<longrightarrow> snd q < snd p"
    using below assms(3) by fastforce
  moreover have "pre @ [p] = pre @ (fst p, snd p) # []" by simp
  ultimately have "\<exists>xs ys. pre @ [p] = xs @ (fst p, snd p) # ys
                \<and> (\<forall>q \<in> set xs. intent_feature q \<longrightarrow> snd q < snd p)
                \<and> (\<forall>q \<in> set ys. intent_feature q \<longrightarrow> snd q \<le> snd p)"
    by (metis empty_iff list.set(1))
  with assms(2,3) ge show ?thesis
    by (simp add: best_so_far_def)
qed

lemma best_so_far_keep:
  assumes "best_so_far pre b" and "\<not> (intent_feature p \<and> snd p > snd b)"
  shows "best_so_far (pre @ [p]) b"
proof (cases "fst b")
  case None
  with assms show ?thesis
    by (auto simp: best_so_far_def)
next
  case (Some k)
  with assms(1) obtain xs ys where
    pre: "pre = xs @ (k, snd b) # ys"
    and xs: "\<forall>q \<in> set xs. intent_feature q \<longrightarrow> snd q < snd b"
    and ys: "\<forall>q \<in> set ys. intent_feature q \<longrightarrow> snd q \<le> snd b"
    by (auto simp: best_so_far_def)
  have "pre @ [p] = xs @ (k, snd b) # (ys @ [p])" using pre by simp
  moreover have "\<forall>q \<in> set (ys @ [p]). intent_feature q \<longrightarrow> snd q \<le> snd b"
    using ys assms(2) by auto
  ultimately have "\<exists>xs ys. pre @ [p] = xs @ (k, snd b) # ys
                \<and> (\<forall>q \<in> set xs. intent_feature q \<longrightarrow> snd q < snd b)
                \<and> (\<forall>q \<in> set ys. intent_feature q \<longrightarrow> snd q \<le> snd b)"
    using xs by blast
  with assms(1) Some show ?thesis
    by (simp add: best_so_far_def)
qed

lemma best_of_best_so_far:
  "best_so_far pre b \<Longrightarrow> best_so_far (pre @ rest) (best_of b rest)"
proof (induction rest arbitrary: pre b)
  case Nil
  then show ?case by simp
next
  case (Cons p rest)
  show ?case
  proof (cases "intent_feature p \<and> snd p > snd b")
    case True
    with Cons.IH[OF best_so_far_new[OF Cons.prems, of p]] show ?thesis by simp
  next
    case False
    with Cons.IH[OF best_so_far_keep[OF Cons.prems False]] show ?thesis by auto
  qed
qed

lemma best_of_start: "best_so_far st (best_of (None, - 1) st)"
  using best_of_best_so_far[of "[]" "(None, - 1)" st] by (simp add: best_so_far_def)

lemma bin_state_of_best:
  assumes "distinct (map fst st)"
  shows "bin_state_of st =
     Inr (case fst (best_of (None, - 1) st) of
            None \<Rightarrow> filter (\<lambda>p. \<not> intent_feature p) st
          | Some k \<Rightarrow> setitem k 1 (filter (\<lambda>p. fst p = k \<or> \<not> intent_feature p) st))"
proof -
  have "best_intent_loop (st, None, - 1) st =
     Inr (filter (\<lambda>p. Some (fst p) = fst (best_of (None, - 1) st)
                       \<or> \<not> (Some (fst p) = None
                             \<or> (intent_feature p \<and> fst p \<in> fst ` set st))) st,
          best_of (None, - 1) st)"
    by (rule best_intent_loop_filter) (use assms in auto)
  moreover have "filter (\<lambda>p. Some (fst p) = fst (best_of (None, - 1) st)
                       \<or> \<not> (Some (fst p) = None
                             \<or> (intent_feature p \<and> fst p \<in> fst ` set st))) st
     = filter (\<lambda>p. Some (fst p) = fst (best_of (None, - 1) st) \<or> \<not> intent_feature p) st"
    by (rule filter_cong) auto
  ultimately show ?thesis
    by (cases "best_of (None, - 1) st")
       (auto simp: bin_state_of_def dict_distinct[OF assms] split: option.splits
             intro!: filter_cong)
qed

lemma bin_state_of_cases:
  assumes "distinct (map fst st)"
  shows "\<exists>d. bin_state_of st = Inr d
     \<and> filter (\<lambda>p. \<not> intent_feature p) d = filter (\<lambda>p. \<not> intent_feature p) st
     \<and> ((\<forall>p \<in> set st. \<not> intent_feature p) \<longrightarrow> d = st)
     \<and> ((\<exists>p \<in> set st. intent_feature p \<and> snd p > - 1) \<longrightarrow>
          (\<exists>xs k w ys. st = xs @ (k, w) # ys \<and> intent_feature (k, w)
             \<and> (\<forall>p \<in> set xs. intent_feature p \<longrightarrow> snd p < w)
             \<and> (\<forall>p \<in> set ys. intent_feature p \<longrightarrow> snd p \<le> w)
             \<and> d = filter (\<lambda>p. \<not> intent_feature p) xs @ (k, 1)
                     # filter (\<lambda>p. \<not> intent_feature p) ys))
     \<and> ((\<forall>p \<in> set st. intent_feature p \<longrightarrow> snd p \<le> - 1) \<longrightarrow>
          d = filter (\<lambda>p. \<not> intent_feature p) st)"
proof (cases "fst (best_of (None, - 1) st)")
  case None
  with best_of_start[of st] have low: "\<forall>p \<in> set st. intent_feature p \<longrightarrow> snd p \<le> - 1"
    by (simp add: best_so_far_def)
  have d: "bin_state_of st = Inr (filter (\<lambda>p. \<not> intent_feature p) st)"
    using bin_state_of_best[OF assms] None by simp
  have "filter (\<lambda>p. \<not> intent_feature p) st = st" if "\<forall>p \<in> set st. \<not> intent_feature p"
    using that by (simp add: filter_id_conv)
  moreover have "\<not> (\<exists>p \<in> set st. intent_feature p \<and> snd p > - 1)"
    using low by fastforce
  ultimately show ?thesis using d by auto
next
  case (Some k)
  let ?w = "snd (best_of (None, - 1) st)"
  let ?ni = "\<lambda>p. \<not> intent_feature p"
  from best_of_start[of st] Some obtain xs ys where
    st: "st = xs @ (k, ?w) # ys" and gt: "?w > - 1" and ik: "intent_feature (k, ?w)"
    and xs: "\<forall>p \<in> set xs. intent_feature p \<longrightarrow> snd p < ?w"
    and ys: "\<forall>p \<in> set ys. intent_feature p \<longrightarrow> snd p \<le> ?w"
    by (auto simp: best_so_far_def)
  have "distinct (map fst (xs @ (k, ?w) # ys))"
    using assms st by metis
  then have kx: "k \<notin> fst ` set xs" and ky: "k \<notin> fst ` set ys"
    by auto
  have fx: "filter (\<lambda>p. fst p = k \<or> \<not> intent_feature p) xs = filter ?ni xs"
    using kx by (intro filter_cong) force+
  have fy: "filter (\<lambda>p. fst p = k \<or> \<not> intent_feature p) ys = filter ?ni ys"
    using ky by (intro filter_cong) force+
  have "filter (\<lambda>p. fst p = k \<or> \<not> intent_feature p) st
          = filter ?ni xs @ (k, ?w) # filter ?ni ys"
    by (subst st) (simp add: fx fy)
  moreover have "k \<notin> fst ` set (filter ?ni xs)" using kx by auto
  ultimately have d: "bin_state_of st = Inr (filter ?ni xs @ (k, 1) # filter ?ni ys)"
    using bin_state_of_best[OF assms] Some by (simp add: setitem_middle)
  have i1: "intent_feature (k, 1)" using ik intent_feature_key by blast
  have "filter ?ni st = filter ?ni (xs @ (k, ?w) # ys)"
    using st by (rule arg_cong)
  then have a: "filter ?ni (filter ?ni xs @ (k, 1) # filter ?ni ys) = filter ?ni st"
    by (simp add: i1 ik)
  have mem: "(k, ?w) \<in> set st"
    using st by (metis in_set_conv_decomp)
  have b: "\<not> (\<forall>p \<in> set st. \<not> intent_feature p)"
    using ik mem by blast
  have c: "\<not> (\<forall>p \<in> set st. intent_feature p \<longrightarrow> snd p \<le> - 1)"
    using ik gt mem by fastforce
  let ?D = "filter ?ni xs @ (k, 1) # filter ?ni ys"
  have c3: "(\<forall>p \<in> set st. \<not> intent_feature p) \<longrightarrow> ?D = st"
    using b by blast
  have c5: "(\<forall>p \<in> set st. intent_feature p \<longrightarrow> snd p \<le> - 1) \<longrightarrow> ?D = filter ?ni st"
    using c by blast
  have "st = xs @ (k, ?w) # ys \<and> intent_feature (k, ?w)
             \<and> (\<forall>p \<in> set xs. intent_feature p \<longrightarrow> snd p < ?w)
             \<and> (\<forall>p \<in> set ys. intent_feature p \<longrightarrow> snd p \<le> ?w)
             \<and> ?D = filter ?ni xs @ (k, 1) # filter ?ni ys"
    using st ik xs ys by simp
  then have c4: "(\<exists>p \<in> set st. intent_feature p \<and> snd p > - 1) \<longrightarrow>
          (\<exists>xs k w ys. st = xs @ (k, w) # ys \<and> intent_feature (k, w)
             \<and> (\<forall>p \<in> set xs. intent_feature p \<longrightarrow> snd p < w)
             \<and> (\<forall>p \<in> set ys. intent_feature p \<longrightarrow> snd p \<le> w)
             \<and> ?D = filter ?ni xs @ (k, 1) # filter ?ni ys)"
    by (intro impI exI)
  from d a c3 c4 c5 show ?thesis
    by (intro exI[of _ ?D] conjI)
qed

lemma map_result_all:
  "\<forall>x \<in> set xs. \<exists>y. f x = Inr y \<Longrightarrow>
     \<exists>ys. map_result f xs = Inr ys \<and> length ys = length xs
          \<and> (\<forall>i < length xs. f (xs ! i) = Inr (ys ! i))"
proof (induction xs)
  case Nil
  then show ?case by simp
next
  case (Cons x xs)
  then obtain y ys where "f x = Inr y" and "map_result f xs = Inr ys"
    and "length ys = length xs" and "\<forall>i < length xs. f (xs ! i) = Inr (ys ! i)"
    by auto
  then show ?case
    by (auto simp: nth_Cons split: nat.splits)
qed

text \<open>
  Claim C1, amended. With \<open>use_intent_probabilities\<close> and \<open>is_binary_training\<close> both
  false, \<open>_create_states\<close> returns one new dictionary for each state of the tracker (the
  keys of a state being distinct). If the state has an intent feature of weight above
  \<open>-1.0\<close>, the dictionary keeps exactly one intent feature, with weight \<open>1.0\<close>: the first
  one of greatest weight (every intent feature before it is strictly lighter, none after
  it is heavier); the other intent features are absent. The other features keep their
  keys, weights and order; a state without intent features is returned unchanged. If
  every intent feature has a weight of \<open>-1.0\<close> or less, all of them are removed.
\<close>

theorem create_states_best_intent:
  assumes "\<not> use_intent_probabilities fz"
    and "\<forall>st \<in> set (past_states tr). distinct (map fst st)"
  shows "\<exists>ds. create_states fz tr False h
              = Inr (map Some [length h ..< length h + length ds], h @ ds)
     \<and> length ds = length (past_states tr)
     \<and> (\<forall>i < length ds.
          filter (\<lambda>p. \<not> intent_feature p) (ds ! i)
            = filter (\<lambda>p. \<not> intent_feature p) (past_states tr ! i)
        \<and> ((\<forall>p \<in> set (past_states tr ! i). \<not> intent_feature p) \<longrightarrow>
             ds ! i = past_states tr ! i)
        \<and> ((\<exists>p \<in> set (past_states tr ! i). intent_feature p \<and> snd p > - 1) \<longrightarrow>
             (\<exists>xs k w ys. past_states tr ! i = xs @ (k, w) # ys \<and> intent_feature (k, w)
                \<and> (\<forall>p \<in> set xs. intent_feature p \<longrightarrow> snd p < w)
                \<and> (\<forall>p \<in> set ys. intent_feature p \<longrightarrow> snd p \<le> w)
                \<and> ds ! i = filter (\<lambda>p. \<not> intent_feature p) xs @ (k, 1)
                             # filter (\<lambda>p. \<not> intent_feature p) ys))
        \<and> ((\<forall>p \<in> set (past_states tr ! i). intent_feature p \<longrightarrow> snd p \<le> - 1) \<longrightarrow>
             ds ! i = filter (\<lambda>p. \<not> intent_feature p) (past_states tr ! i)))"
proof -
  have "\<forall>st \<in> set (past_states tr). \<exists>d. bin_state_of st = Inr d"
    using assms(2) bin_state_of_cases by blast
  from map_result_all[OF this] obtain ds where
    mr: "map_result bin_state_of (past_states tr) = Inr ds"
    and len: "length ds = length (past_states tr)"
    and each: "\<forall>i < length (past_states tr). bin_state_of (past_states tr ! i) = Inr (ds ! i)"
    by blast
  have run: "create_states fz tr False h
              = Inr (map Some [length h ..< length h + length ds], h @ ds)"
    using assms(1) mr by (simp add: create_states_def bin_states_of_def new_dicts_def)
  have "filter (\<lambda>p. \<not> intent_feature p) (ds ! i)
            = filter (\<lambda>p. \<not> intent_feature p) (past_states tr ! i)
        \<and> ((\<forall>p \<in> set (past_states tr ! i). \<not> intent_feature p) \<longrightarrow>
             ds ! i = past_states tr ! i)
        \<and> ((\<exists>p \<in> set (past_states tr ! i). intent_feature p \<and> snd p > - 1) \<longrightarrow>
             (\<exists>xs k w ys. past_states tr ! i = xs @ (k, w) # ys \<and> intent_feature (k, w)
                \<and> (\<forall>p \<in> set xs. intent_feature p \<longrightarrow> snd p < w)
                \<and> (\<forall>p \<in> set ys. intent_feature p \<longrightarrow> snd p \<le> w)
                \<and> ds ! i = filter (\<lambda>p. \<not> intent_feature p) xs @ (k, 1)
                             # filter (\<lambda>p. \<not> intent_feature p) ys))
        \<and> ((\<forall>p \<in> set (past_states tr ! i). intent_feature p \<longrightarrow> snd p \<le> - 1) \<longrightarrow>
             ds ! i = filter (\<lambda>p. \<not> intent_feature p) (past_states tr ! i))"
    if "i < length ds" for i
  proof -
    from that len have i: "i < length (past_states tr)" by simp
    then have "distinct (map fst (past_states tr ! i))"
      using assms(2) by simp
    from bin_state_of_cases[OF this] each i show ?thesis
      by simp
  qed
  with run len show ?thesis by blast
qed

theorem create_states_best_intent_witness:
  "distinct (map fst [(''intent_a'', 3 / 10 :: real), (''slot_x'', 1), (''intent_b'', 9 / 10),
                      (''intent_c'', 9 / 10)])
   \<and> create_states (TrackerFeaturizer None False)
        \<lparr>past_states = [[(''intent_a'', 3 / 10), (''slot_x'', 1), (''intent_b'', 9 / 10),
                          (''intent_c'', 9 / 10)],
                         [(''slot_y'', 1 / 2)]],
         applied_events = [ActionExecuted ''action_listen'' False]\<rparr> False []
       = Inr ([Some 0, Some 1], [[(''slot_x'', 1), (''intent_b'', 1)], [(''slot_y'', 1 / 2)]])"
proof -
  let ?tr = "\<lparr>past_states = [[(''intent_a'', 3 / 10), (''slot_x'', 1), (''intent_b'', 9 / 10),
                          (''intent_c'', 9 / 10)],
                         [(''slot_y'', 1 / 2)]],
         applied_events = [ActionExecuted ''action_listen'' False]\<rparr>"
  have d: "\<forall>st \<in> set (past_states ?tr). distinct (map fst st)"
    by simp
  have u: "\<not> use_intent_probabilities (TrackerFeaturizer None False)"
    by simp
  have concrete: "create_states (TrackerFeaturizer None False) ?tr False []
       = Inr ([Some 0, Some 1], [[(''slot_x'', 1), (''intent_b'', 1)], [(''slot_y'', 1 / 2)]])"
    by code_simp
  from create_states_best_intent[OF u d, of "[]"] obtain ds where
    run: "create_states (TrackerFeaturizer None False) ?tr False []
            = Inr (map Some [length ([] :: heap) ..< length ([] :: heap) + length ds], [] @ ds)"
    by blast
  with concrete have "ds = [[(''slot_x'', 1), (''intent_b'', 1)], [(''slot_y'', 1 / 2)]]"
    by simp
  with run have "create_states (TrackerFeaturizer None False) ?tr False []
       = Inr ([Some 0, Some 1], [[(''slot_x'', 1), (''intent_b'', 1)], [(''slot_y'', 1 / 2)]])"
    by (simp add: upt_rec)
  then show ?thesis by simp
qed

text \<open>
  The claim as stated fails for an intent feature of weight \<open>-1.0\<close>: the comparison with
  the initial \<open>best_intent_prob = -1.0\<close> is strict, so the feature is deleted and no intent
  feature is retained.
\<close>

theorem create_states_best_intent_counterexample:
  "intent_feature (''intent_greet'', - 1)
   \<and> create_states (TrackerFeaturizer None False)
        \<lparr>past_states = [[(''intent_greet'', - 1), (''slot_x'', 1)]],
         applied_events = []\<rparr> False []
       = Inr ([Some 0], [[(''slot_x'', 1)]])"
  by (simp add: intent_feature_def startswith_def, code_simp)

subsection \<open>The full-dialogue variant: states and actions of a tracker\<close>

text \<open>The event loop, in closed form.\<close>

lemma full_events_spec:
  "full_events d acts es =
     (if 2 \<le> (if d then 1 else 0) + unpredictable_count es
      then Inl Exception_two_unpredictable_actions
      else Inr (d \<or> 1 \<le> unpredictable_count es, acts @ predictable_actions es))"
  by (induction d acts es rule: full_events.induct)
     (auto simp: predictable_actions_def unpredictable_count_def)

lemma executed_count_split:
  "length (executed_actions es) = length (predictable_actions es) + unpredictable_count es"
  by (simp add: predictable_actions_def unpredictable_count_def sum_length_filter_compl add.commute)

text \<open>References into the store stay valid, and keep their content, when it grows.\<close>

lemma content_append:
  "valid_refs h ts \<Longrightarrow> map (content (h @ ds)) ts = map (content h) ts"
  by (auto simp: valid_refs_def content_def nth_append map_option_case split: option.splits)

lemma content_new:
  "map (content (h @ ds)) (map Some [length h ..< length h + length ds]) = map Some ds"
  by (auto simp: content_def nth_append intro!: nth_equalityI)

lemma valid_refs_mono: "valid_refs h ts \<Longrightarrow> valid_refs (h @ ds) ts"
  by (auto simp: valid_refs_def)

lemma valid_refs_new: "valid_refs (h @ ds) (map Some [length h ..< length h + length ds])"
  by (auto simp: valid_refs_def)

lemma valid_refs_sub: "valid_refs h ts \<Longrightarrow> set ts' \<subseteq> set ts \<Longrightarrow> valid_refs h ts'"
  by (auto simp: valid_refs_def)

lemma set_butlast_tl: "set (butlast (if b then tl xs else xs)) \<subseteq> set xs"
  by (cases xs) (auto dest: in_set_butlastD)

text \<open>The loop over the trackers: the first tracker with two unpredictable actions raises.\<close>

lemma full_trackers_error:
  assumes "\<exists>tr \<in> set trs. 2 \<le> unpredictable_count (applied_events tr)"
  shows "full_trackers fz trs (S, A, h) = Inl Exception_two_unpredictable_actions"
  using assms
proof (induction trs arbitrary: S A h)
  case Nil
  then show ?case by simp
next
  case (Cons tr trs)
  show ?case
  proof (cases "2 \<le> unpredictable_count (applied_events tr)")
    case True
    then show ?thesis
      by (simp add: create_states_binary full_events_spec)
  next
    case False
    with Cons.prems have "\<exists>tr \<in> set trs. 2 \<le> unpredictable_count (applied_events tr)"
      by auto
    from Cons.IH[OF this] False show ?thesis
      by (simp add: create_states_binary full_events_spec)
  qed
qed

lemma full_trackers_ok:
  assumes "\<forall>tr \<in> set trs. unpredictable_count (applied_events tr) < 2"
    and "\<forall>s \<in> set S. valid_refs h s"
  shows "\<exists>S'. full_trackers fz trs (S, A, h) =
            Inr (S', A @ map (\<lambda>tr. predictable_actions (applied_events tr)) trs,
                 h @ concat (map (\<lambda>tr. map dict (past_states tr)) trs))
         \<and> (\<forall>s \<in> set S'. valid_refs (h @ concat (map (\<lambda>tr. map dict (past_states tr)) trs)) s)
         \<and> map (map (content (h @ concat (map (\<lambda>tr. map dict (past_states tr)) trs)))) S'
             = map (map (content h)) S @ map states_of trs"
  using assms
proof (induction trs arbitrary: S A h)
  case Nil
  then show ?case by simp
next
  case (Cons tr trs)
  let ?refs = "map Some [length h ..< length h + length (past_states tr)] :: turn list"
  let ?h1 = "h @ map dict (past_states tr)"
  let ?d = "1 \<le> unpredictable_count (applied_events tr)"
  let ?s = "butlast (if ?d then tl ?refs else ?refs)"
  have small: "\<not> 2 \<le> unpredictable_count (applied_events tr)"
    using Cons.prems(1) by auto
  have step: "full_trackers fz (tr # trs) (S, A, h) =
         full_trackers fz trs (S @ [?s], A @ [predictable_actions (applied_events tr)], ?h1)"
    using small by (simp add: create_states_binary full_events_spec)
  have "set ?s \<subseteq> set ?refs"
    by (rule set_butlast_tl)
  then have vs: "valid_refs ?h1 ?s"
    using valid_refs_new[of h "map dict (past_states tr)"] valid_refs_sub
    by (metis length_map)
  have v1: "\<forall>s \<in> set (S @ [?s]). valid_refs ?h1 s"
    using Cons.prems(2) vs valid_refs_mono by auto
  have cs: "map (content ?h1) ?s = states_of tr"
    using content_new[of h "map dict (past_states tr)"]
    by (simp add: states_of_def map_butlast map_tl del: map_map)
  have cS: "map (map (content ?h1)) S = map (map (content h)) S"
    using Cons.prems(2) content_append by auto
  have rest: "\<forall>tr \<in> set trs. unpredictable_count (applied_events tr) < 2"
    using Cons.prems(1) by auto
  from Cons.IH[OF rest v1, of "A @ [predictable_actions (applied_events tr)]"]
  show ?case
    unfolding step using cs cS by simp
qed

lemma full_training_error:
  assumes "\<exists>tr \<in> set trackers. 2 \<le> unpredictable_count (applied_events tr)"
  shows "training_states_and_actions H (FullDialogueTrackerFeaturizer sf uip ml) trackers h
           = Inl Exception_two_unpredictable_actions"
  using full_trackers_error[OF assms]
  by (simp add: training_states_and_actions_def full_training_states_and_actions_def)

lemma full_training_ok:
  assumes "\<forall>tr \<in> set trackers. unpredictable_count (applied_events tr) < 2"
  shows "\<exists>S. training_states_and_actions H (FullDialogueTrackerFeaturizer sf uip ml) trackers h
           = Inr (FullDialogueTrackerFeaturizer sf uip
                    (calculate_max_len
                       (map (\<lambda>tr. predictable_actions (applied_events tr)) trackers)),
                  S, map (\<lambda>tr. predictable_actions (applied_events tr)) trackers,
                  h @ concat (map (\<lambda>tr. map dict (past_states tr)) trackers))
         \<and> map (map (content (h @ concat (map (\<lambda>tr. map dict (past_states tr)) trackers)))) S
             = map states_of trackers"
proof -
  from full_trackers_ok[OF assms, of "[]" h "FullDialogueTrackerFeaturizer sf uip ml" "[]"]
  obtain S' where
    "full_trackers (FullDialogueTrackerFeaturizer sf uip ml) trackers ([], [], h) =
       Inr (S', map (\<lambda>tr. predictable_actions (applied_events tr)) trackers,
            h @ concat (map (\<lambda>tr. map dict (past_states tr)) trackers))"
    and "map (map (content (h @ concat (map (\<lambda>tr. map dict (past_states tr)) trackers)))) S'
           = map states_of trackers"
    by auto
  then show ?thesis
    by (simp add: training_states_and_actions_def full_training_states_and_actions_def)
qed

lemma full_training_cases:
  assumes "training_states_and_actions H (FullDialogueTrackerFeaturizer sf uip ml) trackers h
             = Inr (fz', S, A, h')"
  shows "\<forall>tr \<in> set trackers. unpredictable_count (applied_events tr) < 2"
proof (rule ccontr)
  assume "\<not> ?thesis"
  then have "\<exists>tr \<in> set trackers. 2 \<le> unpredictable_count (applied_events tr)"
    by (auto simp: not_less)
  from full_training_error[OF this] assms show False by simp
qed

text \<open>
  Claim C6. When \<open>training_states_and_actions\<close> of the full-dialogue variant returns,
  the \<open>i\<close>-th action list holds the names of the executed actions of the \<open>i\<close>-th tracker
  that are not unpredictable, in event order; the \<open>i\<close>-th state sequence is the tracker's
  sequence of copied states without its last state and, when an action of the tracker is
  unpredictable, without its first state. In particular a tracker whose first executed
  action is unpredictable has no other unpredictable action and loses its leading state.
\<close>

theorem full_dialogue_states_and_actions:
  assumes "training_states_and_actions H (FullDialogueTrackerFeaturizer sf uip ml) trackers h
             = Inr (fz', S, A, h')"
    and "i < length trackers"
  shows "length S = length trackers \<and> length A = length trackers
    \<and> A ! i = map fst (filter (\<lambda>a. \<not> snd a) (executed_actions (applied_events (trackers ! i))))
    \<and> map (content h') (S ! i) =
        butlast ((if 1 \<le> unpredictable_count (applied_events (trackers ! i)) then tl else id)
                   (map Some (map dict (past_states (trackers ! i)))))
    \<and> (\<forall>name rest. executed_actions (applied_events (trackers ! i)) = (name, True) # rest
           \<longrightarrow> list_all (\<lambda>a. \<not> snd a) rest
            \<and> map (content h') (S ! i)
                = butlast (tl (map Some (map dict (past_states (trackers ! i))))))"
proof -
  note ok = full_training_ok[OF full_training_cases[OF assms(1)], of H sf uip ml h]
  then obtain S0 where
    run: "training_states_and_actions H (FullDialogueTrackerFeaturizer sf uip ml) trackers h
           = Inr (FullDialogueTrackerFeaturizer sf uip
                    (calculate_max_len
                       (map (\<lambda>tr. predictable_actions (applied_events tr)) trackers)),
                  S0, map (\<lambda>tr. predictable_actions (applied_events tr)) trackers,
                  h @ concat (map (\<lambda>tr. map dict (past_states tr)) trackers))"
    and cont: "map (map (content (h @ concat (map (\<lambda>tr. map dict (past_states tr)) trackers)))) S0
             = map states_of trackers"
    by blast
  from run assms(1) have eq: "S = S0"
    "A = map (\<lambda>tr. predictable_actions (applied_events tr)) trackers"
    "h' = h @ concat (map (\<lambda>tr. map dict (past_states tr)) trackers)"
    by simp_all
  from cont eq have cont': "map (map (content h')) S = map states_of trackers" by simp
  then have len: "length S = length trackers"
    by (metis length_map)
  from cont' assms(2) len have ci: "map (content h') (S ! i) = states_of (trackers ! i)"
    by (metis nth_map)
  have lt2: "unpredictable_count (applied_events (trackers ! i)) < 2"
    using full_training_cases[OF assms(1)] assms(2) by simp
  have first: "list_all (\<lambda>a. \<not> snd a) rest \<and> 1 \<le> unpredictable_count (applied_events (trackers ! i))"
    if "executed_actions (applied_events (trackers ! i)) = (name, True) # rest" for name rest
    using lt2 that by (auto simp: unpredictable_count_def list_all_iff filter_empty_conv)
  show ?thesis
    using len eq(2) assms(2) ci first
    by (auto simp: states_of_def predictable_actions_def)
qed

theorem full_dialogue_states_and_actions_witness:
  "training_states_and_actions (\<lambda>_. 0) (FullDialogueTrackerFeaturizer None False None)
        [\<lparr>past_states = [[(''slot_a'', 1)], [(''intent_greet'', 1)],
                          [(''prev_utter_greet'', 1)], [(''prev_action_listen'', 1)]],
          applied_events = [ActionExecuted ''session_start'' True, OtherEvent,
                            ActionExecuted ''utter_greet'' False,
                            ActionExecuted ''action_listen'' False]\<rparr>] []
     = Inr (FullDialogueTrackerFeaturizer None False (Some 2),
            [[Some 1, Some 2]], [[''utter_greet'', ''action_listen'']],
            [[(''slot_a'', 1)], [(''intent_greet'', 1)],
             [(''prev_utter_greet'', 1)], [(''prev_action_listen'', 1)]])
   \<and> map (content [[(''slot_a'', 1)], [(''intent_greet'', 1)],
             [(''prev_utter_greet'', 1)], [(''prev_action_listen'', 1)]]) [Some 1, Some 2]
      = [Some [(''intent_greet'', 1)], Some [(''prev_utter_greet'', 1)]]"
proof -
  let ?tr = "\<lparr>past_states = [[(''slot_a'', 1)], [(''intent_greet'', 1)],
                          [(''prev_utter_greet'', 1)], [(''prev_action_listen'', 1)]],
          applied_events = [ActionExecuted ''session_start'' True, OtherEvent,
                            ActionExecuted ''utter_greet'' False,
                            ActionExecuted ''action_listen'' False]\<rparr>"
  have run: "training_states_and_actions (\<lambda>_. 0) (FullDialogueTrackerFeaturizer None False None)
        [?tr] []
     = Inr (FullDialogueTrackerFeaturizer None False (Some 2),
            [[Some 1, Some 2]], [[''utter_greet'', ''action_listen'']],
            [[(''slot_a'', 1)], [(''intent_greet'', 1)],
             [(''prev_utter_greet'', 1)], [(''prev_action_listen'', 1)]])"
    by code_simp
  from full_dialogue_states_and_actions[OF run, of 0] run show ?thesis
    by (simp add: dict_def)
qed

subsection \<open>Two unpredictable actions\<close>

text \<open>
  The max-history variant without \<open>remove_duplicates\<close>: one example for each executed
  action that is not unpredictable, in order, whatever the number of unpredictable ones.
\<close>

lemma max_history_events_labels:
  "snd (snd (max_history_events H (MaxHistoryTrackerFeaturizer sf uip mh False) h states idx
               (hs, S, A) es))
     = A @ map (\<lambda>name. [name]) (predictable_actions es)"
proof (induction es arbitrary: idx hs S A)
  case Nil
  then show ?case by (simp add: predictable_actions_def)
next
  case (Cons e es)
  show ?case
  proof (cases e)
    case OtherEvent
    with Cons show ?thesis by (simp add: predictable_actions_def)
  next
    case (ActionExecuted name unp)
    with Cons show ?thesis
      by (cases unp) (simp_all add: predictable_actions_def add_example_def)
  qed
qed

lemma max_history_trackers_labels:
  "max_history_trackers H (MaxHistoryTrackerFeaturizer sf uip mh False) trs ((hs, S, A), h)
     = Inr ((hs', S', A'), h') \<Longrightarrow>
   A' = A @ map (\<lambda>name. [name])
              (concat (map (\<lambda>tr. predictable_actions (applied_events tr)) trs))"
proof (induction trs arbitrary: hs S A h)
  case Nil
  then show ?case by simp
next
  case (Cons tr trs)
  let ?h1 = "h @ map dict (past_states tr)"
  let ?states = "map Some [length h ..< length h + length (past_states tr)] :: turn list"
  obtain hs1 S1 A1 where ev:
    "max_history_events H (MaxHistoryTrackerFeaturizer sf uip mh False) ?h1 ?states 0
       (hs, S, A) (applied_events tr) = (hs1, S1, A1)"
    by (metis prod_cases3)
  with max_history_events_labels[of H sf uip mh ?h1 ?states 0 hs S A "applied_events tr"]
  have A1: "A1 = A @ map (\<lambda>name. [name]) (predictable_actions (applied_events tr))"
    by simp
  from Cons.prems ev have
    "max_history_trackers H (MaxHistoryTrackerFeaturizer sf uip mh False) trs ((hs1, S1, A1), ?h1)
       = Inr ((hs', S', A'), h')"
    by (simp add: create_states_binary)
  from Cons.IH[OF this] A1 show ?case by simp
qed

lemma max_history_training_labels:
  assumes "training_states_and_actions H (MaxHistoryTrackerFeaturizer sf uip mh False) trackers h
             = Inr (fz', S, A, h')"
  shows "A = map (\<lambda>name. [name])
               (concat (map (\<lambda>tr. predictable_actions (applied_events tr)) trackers))"
proof -
  from assms obtain hs where
    "max_history_trackers H (MaxHistoryTrackerFeaturizer sf uip mh False) trackers
       (({}, [], []), h) = Inr ((hs, S, A), h')"
    by (auto simp: training_states_and_actions_def max_history_training_states_and_actions_def
        split: sum.splits prod.splits)
  from max_history_trackers_labels[OF this] show ?thesis by simp
qed

text \<open>
  Claim C3, amended. A batch with a tracker that holds two or more unpredictable
  \<open>ActionExecuted\<close> events makes \<open>training_states_and_actions\<close> of the full-dialogue
  variant fail with the exception for two unpredictable actions, and a batch without such a
  tracker makes it return. The max-history variant has no such check: its
  \<open>training_states_and_actions\<close> returns for every batch, and without \<open>remove_duplicates\<close>
  its labels are the executed actions that are not unpredictable, the unpredictable ones
  being skipped.
\<close>

theorem two_unpredictable_actions:
  "((\<exists>tr \<in> set trackers. 2 \<le> unpredictable_count (applied_events tr)) \<longrightarrow>
      training_states_and_actions H (FullDialogueTrackerFeaturizer sf uip ml) trackers h
        = Inl Exception_two_unpredictable_actions)
   \<and> ((\<forall>tr \<in> set trackers. unpredictable_count (applied_events tr) < 2) \<longrightarrow>
      (\<exists>r. training_states_and_actions H (FullDialogueTrackerFeaturizer sf uip ml) trackers h
             = Inr r))
   \<and> (\<exists>S A h'. training_states_and_actions H (MaxHistoryTrackerFeaturizer sf uip mh rd) trackers h
        = Inr (MaxHistoryTrackerFeaturizer sf uip mh rd, S, A, h'))
   \<and> (\<forall>fz' S A h'.
        training_states_and_actions H (MaxHistoryTrackerFeaturizer sf uip mh False) trackers h
          = Inr (fz', S, A, h') \<longrightarrow>
        A = map (\<lambda>name. [name])
              (concat (map (\<lambda>tr. predictable_actions (applied_events tr)) trackers)))"
  using full_training_error[of trackers H sf uip ml h] full_training_ok[of trackers H sf uip ml h]
    max_history_training_total[of H sf uip mh rd trackers h]
    max_history_training_labels[of H sf uip mh trackers h]
  by blast

theorem two_unpredictable_actions_witness:
  "unpredictable_count (applied_events
       \<lparr>past_states = [[], [], []],
        applied_events = [ActionExecuted ''a'' True, ActionExecuted ''b'' True]\<rparr>) = 2
   \<and> training_states_and_actions (\<lambda>_. 0) (FullDialogueTrackerFeaturizer None False None)
        [\<lparr>past_states = [[], []], applied_events = [ActionExecuted ''c'' False]\<rparr>,
         \<lparr>past_states = [[], [], []],
          applied_events = [ActionExecuted ''a'' True, ActionExecuted ''b'' True]\<rparr>] []
       = Inl Exception_two_unpredictable_actions
   \<and> training_states_and_actions (\<lambda>_. 0) (FullDialogueTrackerFeaturizer None False None)
        [\<lparr>past_states = [[], []], applied_events = [ActionExecuted ''c'' False]\<rparr>] []
       = Inr (FullDialogueTrackerFeaturizer None False (Some 1), [[Some 0]], [[''c'']], [[], []])"
proof -
  let ?bad = "\<lparr>past_states = [[], [], []],
        applied_events = [ActionExecuted ''a'' True, ActionExecuted ''b'' True]\<rparr>"
  let ?good = "\<lparr>past_states = [[], []], applied_events = [ActionExecuted ''c'' False]\<rparr>"
  have c: "unpredictable_count (applied_events ?bad) = 2"
    by (simp add: unpredictable_count_def)
  then have "\<exists>tr \<in> set [?good, ?bad]. 2 \<le> unpredictable_count (applied_events tr)"
    by simp
  with two_unpredictable_actions[of "[?good, ?bad]" "\<lambda>_. 0" None False None "[]"]
  have e: "training_states_and_actions (\<lambda>_. 0) (FullDialogueTrackerFeaturizer None False None)
        [?good, ?bad] [] = Inl Exception_two_unpredictable_actions"
    by blast
  have r: "training_states_and_actions (\<lambda>_. 0) (FullDialogueTrackerFeaturizer None False None)
        [?good] []
       = Inr (FullDialogueTrackerFeaturizer None False (Some 1), [[Some 0]], [[''c'']], [[], []])"
    by code_simp
  from c e r show ?thesis by simp
qed

text \<open>
  The claim as stated fails for the max-history variant: a tracker with two unpredictable
  actions is processed without an error, and the example of its third action is emitted.
\<close>

theorem max_history_two_unpredictable_counterexample:
  "unpredictable_count (applied_events
       \<lparr>past_states = [[], [], [], []],
        applied_events = [ActionExecuted ''a'' True, ActionExecuted ''b'' True,
                          ActionExecuted ''c'' False]\<rparr>) = 2
   \<and> training_states_and_actions (\<lambda>_. 0) (MaxHistoryTrackerFeaturizer None False 2 True)
        [\<lparr>past_states = [[], [], [], []],
          applied_events = [ActionExecuted ''a'' True, ActionExecuted ''b'' True,
                            ActionExecuted ''c'' False]\<rparr>] []
       = Inr (MaxHistoryTrackerFeaturizer None False 2 True,
              [[Some 1, Some 2]], [[''c'']], [[], [], [], []])"
  by (simp add: unpredictable_count_def, code_simp)

subsection \<open>The full-dialogue variant: \<open>max_len\<close> and padding\<close>

lemma py_max_Max: "xs \<noteq> [] \<Longrightarrow> py_max xs = Max (set xs)"
  by (cases xs) (simp_all add: Max.set_eq_fold[symmetric])

lemma map_result_Inr:
  "map_result f xs = Inr ys \<Longrightarrow>
     length ys = length xs \<and> (\<forall>i < length xs. f (xs ! i) = Inr (ys ! i))"
proof (induction xs arbitrary: ys)
  case Nil
  then show ?case by simp
next
  case (Cons x xs)
  then show ?case
    by (auto simp: nth_Cons split: sum.splits nat.splits)
qed

lemma length_states_of:
  assumes "length (past_states tr) = Suc (length (executed_actions (applied_events tr)))"
    and "unpredictable_count (applied_events tr) < 2"
  shows "length (states_of tr) = length (predictable_actions (applied_events tr))"
  using assms executed_count_split[of "applied_events tr"]
  by (auto simp: states_of_def)

lemma featurize_states_rows:
  assumes "featurize_states cv fz h S = Inr (X, lens)"
    and "1 < length S"
    and "\<And>s. pad_states fz s = Inr (p s)"
  shows "length X = length S \<and> lens = map length S
         \<and> (\<forall>i < length S. length (X ! i) = length (p (S ! i)))"
proof -
  let ?body = "\<lambda>tracker_states.
                case (if length S > 1
                      then pad_states fz tracker_states else Inr tracker_states) of
                  Inl e \<Rightarrow> Inl e
                | Inr padded \<Rightarrow> map_result (encode_turn cv fz h) padded"
  from assms(1) have mr: "map_result ?body S = Inr X" and lens: "lens = map length S"
    by (auto simp: featurize_states_def split: sum.splits)
  from map_result_Inr[OF mr] have len: "length X = length S"
    and each: "\<forall>i < length S. ?body (S ! i) = Inr (X ! i)"
    by auto
  have "length (X ! i) = length (p (S ! i))" if "i < length S" for i
  proof -
    from each that have "map_result (encode_turn cv fz h) (p (S ! i)) = Inr (X ! i)"
      using assms(2,3) by simp
    from map_result_Inr[OF this] show ?thesis by simp
  qed
  with len lens show ?thesis by simp
qed

text \<open>
  Claim C5. After \<open>training_states_and_actions\<close> of the full-dialogue variant, the action
  lists are those of the trackers and \<open>max_len\<close> is the greatest of their lengths;
  \<open>_pad_states\<close> then appends \<open>None\<close> entries to a sequence shorter than \<open>max_len\<close>. For a
  batch of more than one tracker, each tracker having one state per executed action and one
  more (the trackers' invariant, which makes a state sequence as long as its action list),
  every row of \<open>X\<close> that \<open>_featurize_states\<close> returns has length \<open>max_len\<close>, whatever the
  store holds by then, and the true lengths are the lengths of the action lists.
\<close>

theorem full_dialogue_max_len_padding:
  assumes "training_states_and_actions H (FullDialogueTrackerFeaturizer sf uip ml) trackers h
             = Inr (fz', S, A, h')"
  shows "A = map (\<lambda>tr. predictable_actions (applied_events tr)) trackers
    \<and> length S = length trackers
    \<and> (trackers \<noteq> [] \<longrightarrow>
          max_len fz' = Some (Max (set (map length A)))
        \<and> (\<forall>s :: turn list. pad_states fz' s
               = Inr (s @ replicate (Max (set (map length A)) - length s) None)))
    \<and> (1 < length trackers
        \<and> (\<forall>tr \<in> set trackers.
              length (past_states tr) = Suc (length (executed_actions (applied_events tr))))
        \<longrightarrow> (\<forall>h2 X lens. featurize_states cv fz' h2 S = Inr (X, lens) \<longrightarrow>
               length X = length trackers
             \<and> (\<forall>row \<in> set X. length row = Max (set (map length A)))
             \<and> lens = map length A))"
proof -
  let ?A = "map (\<lambda>tr. predictable_actions (applied_events tr)) trackers"
  let ?m = "Max (set (map length A))"
  note lt2 = full_training_cases[OF assms]
  from full_training_ok[OF lt2, of H sf uip ml h] assms
  have A: "A = ?A"
    and fz': "fz' = FullDialogueTrackerFeaturizer sf uip (calculate_max_len ?A)"
    and cont: "map (map (content h')) S = map states_of trackers"
    by auto
  from cont have lenS: "length S = length trackers"
    by (metis length_map)
  have lens_i: "length (S ! i) = length (states_of (trackers ! i))" if "i < length trackers" for i
    using cont that lenS by (metis length_map nth_map)
  have ml: "max_len fz' = Some ?m" if "trackers \<noteq> []"
    using that fz' A by (simp add: calculate_max_len_def py_max_Max)
  have pad: "pad_states fz' s = Inr (s @ replicate (?m - length s) None)"
    if "trackers \<noteq> []" for s :: "turn list"
    using ml[OF that] fz' by (auto simp: pad_states_def)
  have rows: "length X = length trackers \<and> (\<forall>row \<in> set X. length row = ?m) \<and> lens = map length A"
    if many: "1 < length trackers"
      and wf: "\<forall>tr \<in> set trackers.
              length (past_states tr) = Suc (length (executed_actions (applied_events tr)))"
      and fs: "featurize_states cv fz' h2 S = Inr (X, lens)"
    for h2 X lens
  proof -
    from many have ne: "trackers \<noteq> []" by auto
    from featurize_states_rows[OF fs, of "\<lambda>s. s @ replicate (?m - length s) None"] many lenS pad[OF ne]
    have lenX: "length X = length S" and l: "lens = map length S"
      and each: "\<forall>i < length S. length (X ! i) = length (S ! i) + (?m - length (S ! i))"
      by auto
    have SA: "length (S ! i) = length (A ! i)" if "i < length trackers" for i
      using lens_i[OF that] length_states_of[of "trackers ! i"] wf lt2 that A by simp
    have le: "length (A ! i) \<le> ?m" if "i < length trackers" for i
      using that A by (intro Max_ge) auto
    have "length (X ! i) = ?m" if "i < length trackers" for i
      using each SA[OF that] le[OF that] that lenS by simp
    then have "\<forall>row \<in> set X. length row = ?m"
      using lenX lenS by (auto simp: in_set_conv_nth)
    moreover have "map length S = map length A"
      using SA lenS A by (intro nth_equalityI) auto
    ultimately show ?thesis using lenX lenS l by simp
  qed
  show ?thesis
    using A lenS ml pad rows by blast
qed

theorem full_dialogue_max_len_padding_witness:
  "training_states_and_actions (\<lambda>_. 0)
      (FullDialogueTrackerFeaturizer (Some (BOWSingleStateFeaturizer (Some [''greet'']))) False None)
      [\<lparr>past_states = [[], [], [], []],
        applied_events = [ActionExecuted ''a'' False, ActionExecuted ''b'' False,
                          ActionExecuted ''c'' False]\<rparr>,
       \<lparr>past_states = [[], [], [], [], [], []],
        applied_events = [ActionExecuted ''a'' False, ActionExecuted ''b'' False,
                          ActionExecuted ''c'' False, ActionExecuted ''d'' False,
                          ActionExecuted ''e'' False]\<rparr>,
       \<lparr>past_states = [[], [], []],
        applied_events = [ActionExecuted ''a'' False, ActionExecuted ''b'' False]\<rparr>] []
     = Inr (FullDialogueTrackerFeaturizer (Some (BOWSingleStateFeaturizer (Some [''greet''])))
              False (Some 5),
            [[Some 0, Some 1, Some 2], [Some 4, Some 5, Some 6, Some 7, Some 8], [Some 10, Some 11]],
            [[''a'', ''b'', ''c''], [''a'', ''b'', ''c'', ''d'', ''e''], [''a'', ''b'']],
            [[], [], [], [], [], [], [], [], [], [], [], [], []])
   \<and> map length [[''a'', ''b'', ''c''], [''a'', ''b'', ''c'', ''d'', ''e''], [''a'', ''b'']]
       = [3, 5, 2]
   \<and> featurize_states
        \<lparr>CLS_TOKEN = ''__CLS__'', train = (\<lambda>ms. ms), create_sequence = (\<lambda>voc msg. [0])\<rparr>
        (FullDialogueTrackerFeaturizer (Some (BOWSingleStateFeaturizer (Some [''greet''])))
              False (Some 5))
        [[], [], [], [], [], [], [], [], [], [], [], [], []]
        [[Some 0, Some 1, Some 2], [Some 4, Some 5, Some 6, Some 7, Some 8], [Some 10, Some 11]]
     = Inr ([[[0], [0], [0], [- 1], [- 1]], [[0], [0], [0], [0], [0]],
             [[0], [0], [- 1], [- 1], [- 1]]], [3, 5, 2])
   \<and> map length [[[0], [0], [0], [- 1], [- 1]], [[0], [0], [0], [0], [0]],
             [[0], [0], [- 1], [- 1], [- 1::int]]] = [5, 5, 5]"
proof -
  let ?fz = "FullDialogueTrackerFeaturizer (Some (BOWSingleStateFeaturizer (Some [''greet''])))"
  let ?trs = "[\<lparr>past_states = [[], [], [], []],
        applied_events = [ActionExecuted ''a'' False, ActionExecuted ''b'' False,
                          ActionExecuted ''c'' False]\<rparr>,
       \<lparr>past_states = [[], [], [], [], [], []],
        applied_events = [ActionExecuted ''a'' False, ActionExecuted ''b'' False,
                          ActionExecuted ''c'' False, ActionExecuted ''d'' False,
                          ActionExecuted ''e'' False]\<rparr>,
       \<lparr>past_states = [[], [], []],
        applied_events = [ActionExecuted ''a'' False, ActionExecuted ''b'' False]\<rparr>]"
  let ?S = "[[Some 0, Some 1, Some 2], [Some 4, Some 5, Some 6, Some 7, Some 8],
             [Some 10, Some 11]] :: turn list list"
  let ?h = "[[], [], [], [], [], [], [], [], [], [], [], [], []] :: heap"
  let ?cv = "\<lparr>CLS_TOKEN = ''__CLS__'', train = (\<lambda>ms. ms), create_sequence = (\<lambda>voc msg. [0])\<rparr>"
  have run: "training_states_and_actions (\<lambda>_. 0) (?fz False None) ?trs []
     = Inr (?fz False (Some 5), ?S,
            [[''a'', ''b'', ''c''], [''a'', ''b'', ''c'', ''d'', ''e''], [''a'', ''b'']], ?h)"
    by code_simp
  have fs: "featurize_states ?cv (?fz False (Some 5)) ?h ?S
     = Inr ([[[0], [0], [0], [- 1], [- 1]], [[0], [0], [0], [0], [0]],
             [[0], [0], [- 1], [- 1], [- 1]]], [3, 5, 2])"
    by code_simp
  have wf: "1 < length ?trs \<and> (\<forall>tr \<in> set ?trs.
      length (past_states tr) = Suc (length (executed_actions (applied_events tr))))"
    by simp
  from full_dialogue_max_len_padding[OF run, of ?cv] wf fs
  have "\<forall>row \<in> set [[[0], [0], [0], [- 1], [- 1]], [[0], [0], [0], [0], [0]],
             [[0], [0], [- 1], [- 1], [- 1::int]]].
          length row = Max (set (map length
            [[''a'', ''b'', ''c''], [''a'', ''b'', ''c'', ''d'', ''e''], [''a'', ''b'']]))"
    by blast
  then have rows: "map length [[[0], [0], [0], [- 1], [- 1]], [[0], [0], [0], [0], [0]],
             [[0], [0], [- 1], [- 1], [- 1::int]]] = [5, 5, 5]"
    by simp
  have acts: "map length [[''a'', ''b'', ''c''], [''a'', ''b'', ''c'', ''d'', ''e''], [''a'', ''b'']]
       = [3, 5, 2]"
    by simp
  from run acts fs rows show ?thesis
    by (intro conjI)
qed

subsection \<open>\<open>_postprocess_trackers_as_states\<close>: repeated intents\<close>

text \<open>One turn: the deletion never raises, the key being one of the dictionary.\<close>

lemma set_refs_of: "set (refs_of ts) = {r. Some r \<in> set ts}"
  by (induction ts rule: refs_of.induct) auto

lemma first_intent_key:
  assumes "first_intent h (Some r) = Some k"
  shows "k \<in> fst ` set (h ! r)"
proof -
  from assms obtain ks where
    "filter (\<lambda>key. startswith key ''intent_'') (keys (h ! r)) = k # ks"
    by (auto simp: first_intent_def split: list.splits)
  then have "k \<in> set (filter (\<lambda>key. startswith key ''intent_'') (keys (h ! r)))"
    by (metis list.set_intros(1))
  then show ?thesis by (auto simp: keys_def)
qed

lemma postprocess_turn_spec:
  "postprocess_turn prev t h =
     Inr (case first_intent h t of
            None \<Rightarrow> (prev, h)
          | Some k \<Rightarrow>
              if Some k = prev
              then (prev, h[the t := filter (\<lambda>p. fst p \<noteq> k) (h ! the t)])
              else (Some k, h))"
proof (cases t)
  case None
  then show ?thesis by (simp add: postprocess_turn_def first_intent_def)
next
  case (Some r)
  show ?thesis
  proof (cases "first_intent h (Some r)")
    case None
    then show ?thesis using Some
      by (auto simp: postprocess_turn_def first_intent_def keys_def split: list.splits)
  next
    case (Some k)
    from first_intent_key[OF this] have "delitem k (h ! r) = Inr (filter (\<lambda>p. fst p \<noteq> k) (h ! r))"
      by (simp add: delitem_def keys_def)
    moreover from first_intent_key[OF Some] have "h ! r \<noteq> []" by auto
    ultimately show ?thesis using Some \<open>t = Some r\<close>
      by (auto simp: postprocess_turn_def first_intent_def split: list.splits)
  qed
qed

lemma first_intent_frame:
  "t \<noteq> Some r \<Longrightarrow> first_intent (h[r := d]) t = first_intent h t"
  by (cases t) (auto simp: first_intent_def)

lemma deleted_key_frame:
  "\<forall>t \<in> set ts. first_intent h1 t = first_intent h t \<Longrightarrow>
     deleted_key h1 prev ts a = deleted_key h prev ts a"
  by (induction ts arbitrary: prev) (auto split: option.splits)

lemma deleted_key_absent:
  "Some a \<notin> set ts \<Longrightarrow> deleted_key h prev ts a = None"
  by (induction ts arbitrary: prev) (auto split: option.splits)

text \<open>
  One sequence whose dictionaries are distinct objects: a deletion does not change what
  the later turns of the sequence hold.
\<close>

lemma postprocess_sequence_spec:
  assumes "distinct (refs_of s)" and "valid_refs h s"
  shows "\<exists>h'. postprocess_sequence prev s h = Inr h' \<and> length h' = length h
     \<and> (\<forall>a < length h. h' ! a =
           (case deleted_key h prev s a of
              None \<Rightarrow> h ! a
            | Some k \<Rightarrow> filter (\<lambda>p. fst p \<noteq> k) (h ! a)))"
  using assms
proof (induction s arbitrary: prev h)
  case Nil
  then show ?case by simp
next
  case (Cons t ts)
  have dts: "distinct (refs_of ts)"
    using Cons.prems(1) by (cases t) auto
  have vts: "valid_refs h ts"
    using Cons.prems(2) by (auto simp: valid_refs_def)
  show ?case
  proof (cases "first_intent h t")
    case None
    with Cons.IH[OF dts vts, of prev] show ?thesis
      by (simp add: postprocess_turn_spec)
  next
    case (Some k)
    show ?thesis
    proof (cases "Some k = prev")
      case False
      with Some Cons.IH[OF dts vts, of "Some k"] show ?thesis
        by (simp add: postprocess_turn_spec)
    next
      case True
      from True have pk: "prev = Some k" by simp
      from Some obtain r where t: "t = Some r"
        by (cases t) (auto simp: first_intent_def)
      have fi: "first_intent h (Some r) = Some k" using Some t by simp
      have rlen: "r < length h"
        using Cons.prems(2) t by (auto simp: valid_refs_def)
      have rts: "Some r \<notin> set ts"
        using Cons.prems(1) t by (auto simp: set_refs_of)
      let ?h1 = "h[r := filter (\<lambda>p. fst p \<noteq> k) (h ! r)]"
      have v1: "valid_refs ?h1 ts" using vts by (simp add: valid_refs_def)
      from Cons.IH[OF dts v1, of prev] obtain h' where
        run: "postprocess_sequence prev ts ?h1 = Inr h'" and len: "length h' = length h"
        and cont: "\<forall>a < length h. h' ! a =
           (case deleted_key ?h1 prev ts a of
              None \<Rightarrow> ?h1 ! a
            | Some k \<Rightarrow> filter (\<lambda>p. fst p \<noteq> k) (?h1 ! a))"
        by auto
      have frame: "deleted_key ?h1 prev ts a = deleted_key h prev ts a" for a
        using rts by (intro deleted_key_frame ballI first_intent_frame) auto
      have "h' ! a = (case deleted_key h prev (t # ts) a of
              None \<Rightarrow> h ! a
            | Some k \<Rightarrow> filter (\<lambda>p. fst p \<noteq> k) (h ! a))" if "a < length h" for a
      proof (cases "a = r")
        case True
        then show ?thesis
          using cont that frame deleted_key_absent[OF rts] rlen
          by (simp add: t fi pk)
      next
        case False
        then show ?thesis
          using cont that frame
          by (simp add: t fi pk cong: option.case_cong)
      qed
      with run len show ?thesis
        by (simp add: postprocess_turn_spec t fi pk)
    qed
  qed
qed

text \<open>\<open>previous_intent\<close> is the first intent of the last turn that has one.\<close>

lemma last_intent_append:
  "last_intent h prev (xs @ ys) = last_intent h (last_intent h prev xs) ys"
  by (induction xs arbitrary: prev) auto

lemma last_intent_none:
  "\<forall>t \<in> set ts. first_intent h t = None \<Longrightarrow> last_intent h prev ts = prev"
  by (induction ts arbitrary: prev) auto

lemma last_intent_found:
  assumes "first_intent h t = Some k" and "\<forall>t' \<in> set vs. first_intent h t' = None"
  shows "last_intent h prev (us @ t # vs) = Some k"
  using assms by (simp add: last_intent_append last_intent_none)

lemma last_intent_cases:
  "last_intent h prev ts = Some k \<Longrightarrow>
     (prev = Some k \<and> (\<forall>t \<in> set ts. first_intent h t = None))
     \<or> (\<exists>us t vs. ts = us @ t # vs \<and> first_intent h t = Some k
           \<and> (\<forall>t' \<in> set vs. first_intent h t' = None))"
proof (induction ts arbitrary: prev)
  case Nil
  then show ?case by simp
next
  case (Cons t ts)
  let ?p = "case first_intent h t of None \<Rightarrow> prev | Some k \<Rightarrow> Some k"
  from Cons.prems have "last_intent h ?p ts = Some k" by simp
  from Cons.IH[OF this] consider
    (start) "?p = Some k" "\<forall>t \<in> set ts. first_intent h t = None"
    | (later) us t0 vs where "ts = us @ t0 # vs" "first_intent h t0 = Some k"
        "\<forall>t' \<in> set vs. first_intent h t' = None"
    by blast
  then show ?case
  proof cases
    case start
    show ?thesis
    proof (cases "first_intent h t")
      case None
      with start show ?thesis by simp
    next
      case (Some k')
      with start have "first_intent h t = Some k" by simp
      moreover have "t # ts = [] @ t # ts" by simp
      ultimately show ?thesis using start(2) by blast
    qed
  next
    case later
    then have "t # ts = (t # us) @ t0 # vs" by simp
    with later(2,3) show ?thesis by blast
  qed
qed

lemma last_intent_decomp:
  "last_intent h None ts = Some k \<longleftrightarrow>
     (\<exists>us t vs. ts = us @ t # vs \<and> first_intent h t = Some k
        \<and> (\<forall>t' \<in> set vs. first_intent h t' = None))"
  using last_intent_cases[of h None ts k] last_intent_found[of h _ k _ None]
  by auto

lemma deleted_key_decomp:
  assumes "Some a \<notin> set xs" and "Some a \<notin> set ys"
  shows "deleted_key h prev (xs @ Some a # ys) a =
     (if first_intent h (Some a) \<noteq> None \<and> first_intent h (Some a) = last_intent h prev xs
      then first_intent h (Some a) else None)"
  using assms(1)
proof (induction xs arbitrary: prev)
  case Nil
  then show ?case
    using deleted_key_absent[OF assms(2)] by (auto split: option.splits)
next
  case (Cons t xs)
  then have "t \<noteq> Some a" and "Some a \<notin> set xs" by auto
  with Cons.IH show ?case
    by (auto split: option.splits)
qed

text \<open>The batch: every sequence starts with \<open>previous_intent = None\<close>; nothing raises.\<close>

lemma postprocess_sequence_total:
  "\<exists>h'. postprocess_sequence prev s h = Inr h' \<and> length h' = length h"
proof (induction s arbitrary: prev h)
  case Nil
  then show ?case by simp
next
  case (Cons t ts)
  have "\<exists>prev' h1. postprocess_turn prev t h = Inr (prev', h1) \<and> length h1 = length h"
    by (cases "first_intent h t") (auto simp: postprocess_turn_spec)
  then obtain prev' h1 where step: "postprocess_turn prev t h = Inr (prev', h1)"
    and len: "length h1 = length h"
    by blast
  with Cons.IH[of prev' h1] show ?case by simp
qed

lemma postprocess_total:
  "\<exists>h'. postprocess_trackers_as_states ss h = Inr h' \<and> length h' = length h"
proof (induction ss arbitrary: h)
  case Nil
  then show ?case by simp
next
  case (Cons s ss)
  from postprocess_sequence_total[of None s h] obtain h1 where
    "postprocess_sequence None s h = Inr h1" and "length h1 = length h"
    by blast
  with Cons.IH[of h1] show ?case by simp
qed

lemma postprocess_append:
  "postprocess_trackers_as_states (xs @ ys) h =
     (case postprocess_trackers_as_states xs h of
        Inl e \<Rightarrow> Inl e
      | Inr h1 \<Rightarrow> postprocess_trackers_as_states ys h1)"
  by (induction xs arbitrary: h) (auto split: sum.splits)

lemma postprocess_sequence_turns:
  assumes "distinct (refs_of s)" and "valid_refs h s"
  shows "\<exists>h'. postprocess_sequence None s h = Inr h' \<and> length h' = length h
     \<and> (\<forall>xs r ys. s = xs @ Some r # ys \<longrightarrow>
           h' ! r =
             (if \<exists>k us t vs. first_intent h (Some r) = Some k \<and> xs = us @ t # vs
                    \<and> first_intent h t = Some k
                    \<and> (\<forall>t' \<in> set vs. first_intent h t' = None)
              then filter (\<lambda>p. Some (fst p) \<noteq> first_intent h (Some r)) (h ! r)
              else h ! r))
     \<and> (\<forall>a < length h. Some a \<notin> set s \<longrightarrow> h' ! a = h ! a)"
proof -
  from postprocess_sequence_spec[OF assms, of None] obtain h' where
    run: "postprocess_sequence None s h = Inr h'" and len: "length h' = length h"
    and cont: "\<forall>a < length h. h' ! a =
           (case deleted_key h None s a of
              None \<Rightarrow> h ! a
            | Some k \<Rightarrow> filter (\<lambda>p. fst p \<noteq> k) (h ! a))"
    by blast
  have turn: "h' ! r =
             (if \<exists>k us t vs. first_intent h (Some r) = Some k \<and> xs = us @ t # vs
                    \<and> first_intent h t = Some k
                    \<and> (\<forall>t' \<in> set vs. first_intent h t' = None)
              then filter (\<lambda>p. Some (fst p) \<noteq> first_intent h (Some r)) (h ! r)
              else h ! r)"
    if s: "s = xs @ Some r # ys" for xs r ys
  proof -
    have "distinct (refs_of (xs @ Some r # ys))" using assms(1) s by simp
    then have "r \<notin> set (refs_of xs) \<and> r \<notin> set (refs_of ys)"
      by (induction xs rule: refs_of.induct) (auto simp: set_refs_of)
    then have nx: "Some r \<notin> set xs" and ny: "Some r \<notin> set ys"
      by (auto simp: set_refs_of)
    have r: "r < length h" using assms(2) s by (auto simp: valid_refs_def)
    have dk: "deleted_key h None s r =
       (if first_intent h (Some r) \<noteq> None \<and> first_intent h (Some r) = last_intent h None xs
        then first_intent h (Some r) else None)"
      unfolding s by (rule deleted_key_decomp[OF nx ny])
    have ceq: "(\<exists>k us t vs. first_intent h (Some r) = Some k \<and> xs = us @ t # vs
                    \<and> first_intent h t = Some k
                    \<and> (\<forall>t' \<in> set vs. first_intent h t' = None))
        \<longleftrightarrow> (\<exists>k. first_intent h (Some r) = Some k \<and> last_intent h None xs = Some k)"
      unfolding last_intent_decomp by blast
    have hr: "h' ! r = (case deleted_key h None s r of
              None \<Rightarrow> h ! r
            | Some k \<Rightarrow> filter (\<lambda>p. fst p \<noteq> k) (h ! r))"
      using cont r by simp
    show ?thesis
      unfolding ceq hr dk
      by (cases "first_intent h (Some r)") auto
  qed
  have other: "h' ! a = h ! a" if "a < length h" "Some a \<notin> set s" for a
    using cont that deleted_key_absent[of a s h None] by simp
  from run len turn other show ?thesis by blast
qed

text \<open>
  Claim C9. \<open>_postprocess_trackers_as_states\<close> returns nothing and changes the
  dictionaries in the store; it never raises. Let \<open>h1\<close> be the store when the \<open>i\<close>-th
  sequence is reached and \<open>h2\<close> the store after it, the dictionaries of the sequence being
  distinct objects. The dictionary of a turn loses its first intent key \<open>k\<close>, and nothing
  else, exactly when an earlier turn \<open>t\<close> of the same sequence has the first intent key \<open>k\<close>
  and no turn between the two has an intent key (turns that are \<open>None\<close>, empty or without
  intent lie in \<open>vs\<close> and do not reset the memory); otherwise it is unchanged. So of
  consecutive turns with the same first intent only the first keeps it. Dictionaries
  outside the sequence are not touched by it.
\<close>

theorem postprocess_duplicate_intents:
  assumes "i < length ss" and "valid_refs h (ss ! i)" and "distinct (refs_of (ss ! i))"
  shows "\<exists>h1 h2 h3.
        postprocess_trackers_as_states (take i ss) h = Inr h1
      \<and> postprocess_trackers_as_states (take (Suc i) ss) h = Inr h2
      \<and> postprocess_trackers_as_states ss h = Inr h3
      \<and> length h1 = length h \<and> length h2 = length h \<and> length h3 = length h
      \<and> (\<forall>xs r ys. ss ! i = xs @ Some r # ys \<longrightarrow>
           h2 ! r =
             (if \<exists>k us t vs. first_intent h1 (Some r) = Some k \<and> xs = us @ t # vs
                    \<and> first_intent h1 t = Some k
                    \<and> (\<forall>t' \<in> set vs. first_intent h1 t' = None)
              then filter (\<lambda>p. Some (fst p) \<noteq> first_intent h1 (Some r)) (h1 ! r)
              else h1 ! r))
      \<and> (\<forall>a < length h. Some a \<notin> set (ss ! i) \<longrightarrow> h2 ! a = h1 ! a)"
proof -
  from postprocess_total[of "take i ss" h] obtain h1 where
    r1: "postprocess_trackers_as_states (take i ss) h = Inr h1" and l1: "length h1 = length h"
    by blast
  have v1: "valid_refs h1 (ss ! i)" using assms(2) l1 by (simp add: valid_refs_def)
  from postprocess_sequence_turns[OF assms(3) v1] obtain h2 where
    r2: "postprocess_sequence None (ss ! i) h1 = Inr h2" and l2: "length h2 = length h1"
    and turns: "\<forall>xs r ys. ss ! i = xs @ Some r # ys \<longrightarrow>
           h2 ! r =
             (if \<exists>k us t vs. first_intent h1 (Some r) = Some k \<and> xs = us @ t # vs
                    \<and> first_intent h1 t = Some k
                    \<and> (\<forall>t' \<in> set vs. first_intent h1 t' = None)
              then filter (\<lambda>p. Some (fst p) \<noteq> first_intent h1 (Some r)) (h1 ! r)
              else h1 ! r)"
    and others: "\<forall>a < length h1. Some a \<notin> set (ss ! i) \<longrightarrow> h2 ! a = h1 ! a"
    by blast
  have "take (Suc i) ss = take i ss @ [ss ! i]"
    using assms(1) by (simp add: take_Suc_conv_app_nth)
  then have r2': "postprocess_trackers_as_states (take (Suc i) ss) h = Inr h2"
    using r1 r2 by (simp add: postprocess_append)
  from postprocess_total[of ss h] obtain h3 where
    r3: "postprocess_trackers_as_states ss h = Inr h3" and l3: "length h3 = length h"
    by blast
  from r1 r2' r3 l1 l2 l3 turns others show ?thesis
    by (intro exI[of _ h1] exI[of _ h2] exI[of _ h3]) simp
qed

theorem postprocess_duplicate_intents_witness:
  "valid_refs [[(''intent_greet'', 1), (''prev_action_listen'', 1)], [(''slot_x'', 1)],
               [(''prev_utter_greet'', 1), (''intent_greet'', 1), (''intent_thank'', 1)],
               [(''intent_greet'', 1)]]
     [Some 0, None, Some 1, Some 2, Some 3]
   \<and> distinct (refs_of [Some 0, None, Some 1, Some 2, Some 3])
   \<and> first_intent [[(''intent_greet'', 1), (''prev_action_listen'', 1)], [(''slot_x'', 1)],
                    [(''prev_utter_greet'', 1), (''intent_greet'', 1), (''intent_thank'', 1)],
                    [(''intent_greet'', 1)]] (Some 2) = Some ''intent_greet''
   \<and> postprocess_trackers_as_states [[Some 0, None, Some 1, Some 2, Some 3]]
       [[(''intent_greet'', 1), (''prev_action_listen'', 1)], [(''slot_x'', 1)],
        [(''prev_utter_greet'', 1), (''intent_greet'', 1), (''intent_thank'', 1)],
        [(''intent_greet'', 1)]]
     = Inr [[(''intent_greet'', 1), (''prev_action_listen'', 1)], [(''slot_x'', 1)],
            [(''prev_utter_greet'', 1), (''intent_thank'', 1)], []]"
proof -
  let ?h = "[[(''intent_greet'', 1), (''prev_action_listen'', 1)], [(''slot_x'', 1)],
             [(''prev_utter_greet'', 1), (''intent_greet'', 1), (''intent_thank'', 1)],
             [(''intent_greet'', 1)]] :: heap"
  let ?s = "[Some 0, None, Some 1, Some 2, Some 3] :: turn list"
  have v: "valid_refs ?h ([?s] ! 0)" by (auto simp: valid_refs_def)
  have d: "distinct (refs_of ([?s] ! 0))" by simp
  have fi: "first_intent ?h (Some 2) = Some ''intent_greet''"
    by (simp add: first_intent_def keys_def startswith_def)
  have i: "0 < length [?s]" by simp
  from postprocess_duplicate_intents[OF i v d] obtain h3 where
    run: "postprocess_trackers_as_states [?s] ?h = Inr h3" and len: "length h3 = length ?h"
    by blast
  have concrete: "postprocess_trackers_as_states [?s] ?h
     = Inr [[(''intent_greet'', 1), (''prev_action_listen'', 1)], [(''slot_x'', 1)],
            [(''prev_utter_greet'', 1), (''intent_thank'', 1)], []]"
    by code_simp
  from run concrete have "h3 = [[(''intent_greet'', 1), (''prev_action_listen'', 1)],
            [(''slot_x'', 1)], [(''prev_utter_greet'', 1), (''intent_thank'', 1)], []]"
    by simp
  with run v d fi show ?thesis by simp
qed

subsection \<open>Deduplication by hash in the max-history variant\<close>

lemma first_by_hash_snoc:
  "first_by_hash f seen (xs @ [x]) =
     first_by_hash f seen xs @ (if f x \<in> seen \<union> f ` set xs then [] else [x])"
  by (induction xs arbitrary: seen) auto

lemma first_by_hash_cong:
  "\<forall>x \<in> set xs. f x = g x \<Longrightarrow> first_by_hash f seen xs = first_by_hash g seen xs"
  by (induction xs arbitrary: seen) auto

lemma first_by_hash_keys:
  "f ` set (first_by_hash f seen xs) = f ` set xs - seen"
  by (induction xs arbitrary: seen) auto

lemma first_by_hash_distinct:
  "distinct (map f (first_by_hash f seen xs))"
proof (induction xs arbitrary: seen)
  case Nil
  then show ?case by simp
next
  case (Cons x xs)
  have "f x \<notin> f ` set (first_by_hash f (insert (f x) seen) xs)"
    by (simp add: first_by_hash_keys)
  with Cons show ?case by auto
qed

lemma first_by_hash_subset: "set (first_by_hash f seen xs) \<subseteq> set xs"
  by (induction xs arbitrary: seen) auto

lemma distinct_map_filter_le:
  "distinct (map f ys) \<Longrightarrow> length (filter (\<lambda>y. f y = v) ys) \<le> 1"
  by (induction ys) (auto simp: filter_empty_conv image_iff)

lemma distinct_map_filter_one:
  "distinct (map f ys) \<Longrightarrow> v \<in> f ` set ys \<Longrightarrow> length (filter (\<lambda>y. f y = v) ys) = 1"
  by (induction ys) (auto simp: filter_empty_conv image_iff)

lemma length_filter_imp:
  "(\<And>x. P x \<Longrightarrow> Q x) \<Longrightarrow> length (filter P xs) \<le> length (filter Q xs)"
  by (induction xs) auto

text \<open>Windows hold valid references, whose frozen content does not change.\<close>

lemma frozen_states_append:
  "valid_refs h w \<Longrightarrow> frozen_states (h @ ds) w = frozen_states h w"
  using content_append[of h w ds]
  by (auto simp: frozen_states_def valid_refs_def content_def nth_append split: option.splits)

lemma valid_refs_slice:
  "valid_refs h states \<Longrightarrow> valid_refs h (slice_state_history (take n states) mh)"
  by (auto simp: valid_refs_def slice_state_history_def Let_def dest: in_set_dropD in_set_takeD)

lemma hash_example_frozen:
  assumes "list_all2 (\<lambda>s t. map_option set (content h s) = map_option set (content h t)) w1 w2"
  shows "hash_example H h w1 a = hash_example H h w2 a"
proof -
  from assms have "frozen_states h w1 = frozen_states h w2"
    unfolding frozen_states_def by (induction rule: list_all2_induct) auto
  then show ?thesis by (simp add: hash_example_def)
qed

text \<open>The two runs, side by side.\<close>

lemma dedup_rel_add_example:
  assumes "dedup_rel H h acc acc0" and "valid_refs h w"
  shows "dedup_rel H h
           (add_example H (MaxHistoryTrackerFeaturizer sf uip mh True) h w name acc)
           (add_example H (MaxHistoryTrackerFeaturizer sf uip mh False) h w name acc0)"
proof -
  obtain hs S A where acc: "acc = (hs, S, A)" by (cases acc)
  obtain hs0 S0 A0 where acc0: "acc0 = (hs0, S0, A0)" by (cases acc0)
  from assms(1) have lenA: "length A = length S" and len0: "length A0 = length S0"
    and val: "\<forall>w \<in> set S0. valid_refs h w"
    and z: "zip S A = first_by_hash (example_hash H h) {} (zip S0 A0)"
    and hs: "hs = example_hash H h ` set (zip S0 A0)"
    by (auto simp: dedup_rel_def acc acc0)
  have key: "hash_example H h w name = example_hash H h (w, [name])"
    by (simp add: hash_example_def example_hash_def)
  have z0: "zip (S0 @ [w]) (A0 @ [[name]]) = zip S0 A0 @ [(w, [name])]"
    using len0 by simp
  show ?thesis
  proof (cases "example_hash H h (w, [name]) \<in> hs")
    case True
    then show ?thesis
      using lenA len0 val z hs assms(2) key True
      by (auto simp: dedup_rel_def acc acc0 add_example_def z0 first_by_hash_snoc)
  next
    case False
    have "zip (S @ [w]) (A @ [[name]]) = zip S A @ [(w, [name])]"
      using lenA by simp
    then show ?thesis
      using lenA len0 val z hs assms(2) key False
      by (auto simp: dedup_rel_def acc acc0 add_example_def z0 first_by_hash_snoc)
  qed
qed

lemma dedup_rel_events:
  assumes "dedup_rel H h acc acc0" and "valid_refs h states"
  shows "dedup_rel H h
           (max_history_events H (MaxHistoryTrackerFeaturizer sf uip mh True) h states idx acc es)
           (max_history_events H (MaxHistoryTrackerFeaturizer sf uip mh False) h states idx acc0 es)"
  using assms(1)
proof (induction es arbitrary: idx acc acc0)
  case Nil
  then show ?case by simp
next
  case (Cons e es)
  show ?case
  proof (cases e)
    case OtherEvent
    with Cons show ?thesis by simp
  next
    case (ActionExecuted name unp)
    show ?thesis
    proof (cases unp)
      case True
      with Cons ActionExecuted show ?thesis by simp
    next
      case False
      have "valid_refs h (slice_state_history (take (idx + 1) states) mh)"
        using assms(2) by (rule valid_refs_slice)
      from dedup_rel_add_example[OF Cons.prems this, where sf = sf and uip = uip and name = name]
      have "dedup_rel H h
         (add_example H (MaxHistoryTrackerFeaturizer sf uip mh True) h
            (slice_state_history (take (idx + 1) states) mh) name acc)
         (add_example H (MaxHistoryTrackerFeaturizer sf uip mh False) h
            (slice_state_history (take (idx + 1) states) mh) name acc0)" .
      from Cons.IH[OF this] ActionExecuted False show ?thesis by simp
    qed
  qed
qed

lemma dedup_rel_grow:
  assumes "dedup_rel H h acc acc0"
  shows "dedup_rel H (h @ ds) acc acc0"
proof -
  obtain hs S A where acc: "acc = (hs, S, A)" by (cases acc)
  obtain hs0 S0 A0 where acc0: "acc0 = (hs0, S0, A0)" by (cases acc0)
  from assms have val: "\<forall>w \<in> set S0. valid_refs h w"
    by (auto simp: dedup_rel_def acc acc0)
  have same: "\<forall>x \<in> set (zip S0 A0). example_hash H (h @ ds) x = example_hash H h x"
    using val by (auto simp: example_hash_def frozen_states_append dest: set_zip_leftD)
  then have "first_by_hash (example_hash H (h @ ds)) {} (zip S0 A0)
               = first_by_hash (example_hash H h) {} (zip S0 A0)"
    by (rule first_by_hash_cong)
  moreover have "example_hash H (h @ ds) ` set (zip S0 A0) = example_hash H h ` set (zip S0 A0)"
    using same by (intro image_cong) auto
  moreover have "\<forall>w \<in> set S0. valid_refs (h @ ds) w"
    using val valid_refs_mono by blast
  ultimately show ?thesis
    using assms by (simp add: dedup_rel_def acc acc0)
qed

lemma dedup_rel_trackers:
  assumes "dedup_rel H h acc acc0"
  shows "\<exists>acc' acc0' h'.
     max_history_trackers H (MaxHistoryTrackerFeaturizer sf uip mh True) trs (acc, h)
       = Inr (acc', h')
   \<and> max_history_trackers H (MaxHistoryTrackerFeaturizer sf uip mh False) trs (acc0, h)
       = Inr (acc0', h')
   \<and> dedup_rel H h' acc' acc0'"
  using assms
proof (induction trs arbitrary: acc acc0 h)
  case Nil
  then show ?case by simp
next
  case (Cons tr trs)
  let ?h1 = "h @ map dict (past_states tr)"
  let ?states = "map Some [length h ..< length h + length (past_states tr)] :: turn list"
  have v: "valid_refs ?h1 ?states"
    using valid_refs_new[of h "map dict (past_states tr)"] by simp
  from dedup_rel_events[OF dedup_rel_grow[OF Cons.prems] v,
      where sf = sf and uip = uip and mh = mh and idx = 0 and es = "applied_events tr"]
  have "dedup_rel H ?h1
     (max_history_events H (MaxHistoryTrackerFeaturizer sf uip mh True) ?h1 ?states 0 acc
        (applied_events tr))
     (max_history_events H (MaxHistoryTrackerFeaturizer sf uip mh False) ?h1 ?states 0 acc0
        (applied_events tr))" .
  from Cons.IH[OF this] show ?case
    by (simp add: create_states_binary)
qed

lemma max_history_dedup:
  assumes "training_states_and_actions H (MaxHistoryTrackerFeaturizer sf uip mh True) trackers h
             = Inr (fz1, S, A, h1)"
    and "training_states_and_actions H (MaxHistoryTrackerFeaturizer sf uip mh False) trackers h
             = Inr (fz2, S0, A0, h2)"
  shows "h2 = h1 \<and> length A = length S \<and> length A0 = length S0
     \<and> zip S A = first_by_hash (example_hash H h1) {} (zip S0 A0)"
proof -
  have "dedup_rel H h ({}, [], []) ({}, [], [])"
    by (simp add: dedup_rel_def)
  from dedup_rel_trackers[OF this, of sf uip mh trackers] obtain acc' acc0' h' where
    t: "max_history_trackers H (MaxHistoryTrackerFeaturizer sf uip mh True) trackers
          (({}, [], []), h) = Inr (acc', h')"
    and f: "max_history_trackers H (MaxHistoryTrackerFeaturizer sf uip mh False) trackers
          (({}, [], []), h) = Inr (acc0', h')"
    and rel: "dedup_rel H h' acc' acc0'"
    by blast
  obtain hs S' A' where acc: "acc' = (hs, S', A')" by (cases acc')
  obtain hs0 S0' A0' where acc0: "acc0' = (hs0, S0', A0')" by (cases acc0')
  from assms(1) t acc have "S = S'" "A = A'" "h1 = h'"
    by (simp_all add: training_states_and_actions_def max_history_training_states_and_actions_def)
  moreover from assms(2) f acc0 have "S0 = S0'" "A0 = A0'" "h2 = h'"
    by (simp_all add: training_states_and_actions_def max_history_training_states_and_actions_def)
  ultimately show ?thesis
    using rel by (simp add: dedup_rel_def acc acc0)
qed

text \<open>
  Claim C4, amended. \<open>_hash_example\<close> gives the same integer for two windows whose
  entries are pairwise equal as sets of items (\<open>None\<close> matching \<open>None\<close> only) and the same
  label. With \<open>remove_duplicates\<close>, the output is the list of the submitted examples (the
  output without \<open>remove_duplicates\<close>) that no earlier submitted example shares its hash
  with. Hence for every submitted example exactly one example of its hash is in the
  output, and no (window, label) pair is in the output twice, from whichever trackers it
  comes. The pair is there exactly once when examples with equal hashes are equal pairs;
  equality is not checked after a hash match, so a pair whose hash an earlier, different
  pair has is not in the output at all.
\<close>

theorem remove_duplicates_by_hash:
  assumes "training_states_and_actions H (MaxHistoryTrackerFeaturizer sf uip mh True) trackers h
             = Inr (fz1, S, A, h1)"
    and "training_states_and_actions H (MaxHistoryTrackerFeaturizer sf uip mh False) trackers h
             = Inr (fz2, S0, A0, h2)"
  shows "(\<forall>w1 w2 a.
            list_all2 (\<lambda>s t. map_option set (content h1 s) = map_option set (content h1 t)) w1 w2
            \<longrightarrow> hash_example H h1 w1 a = hash_example H h1 w2 a)
    \<and> h2 = h1 \<and> length A = length S \<and> length A0 = length S0
    \<and> zip S A = first_by_hash (example_hash H h1) {} (zip S0 A0)
    \<and> (\<forall>x \<in> set (zip S0 A0).
          length (filter (\<lambda>y. example_hash H h1 y = example_hash H h1 x) (zip S A)) = 1)
    \<and> (\<forall>w a. length (filter (\<lambda>y. frozen_states h1 (fst y) = frozen_states h1 w \<and> snd y = a)
                        (zip S A)) \<le> 1)
    \<and> ((\<forall>x \<in> set (zip S0 A0). \<forall>y \<in> set (zip S0 A0).
            example_hash H h1 x = example_hash H h1 y
            \<longrightarrow> frozen_states h1 (fst x) = frozen_states h1 (fst y) \<and> snd x = snd y)
        \<longrightarrow> (\<forall>x \<in> set (zip S0 A0).
              length (filter (\<lambda>y. frozen_states h1 (fst y) = frozen_states h1 (fst x)
                                   \<and> snd y = snd x) (zip S A)) = 1))"
proof -
  let ?key = "example_hash H h1"
  let ?out = "zip S A"
  let ?sub = "zip S0 A0"
  from max_history_dedup[OF assms] have h: "h2 = h1" and la: "length A = length S"
    and la0: "length A0 = length S0" and z: "?out = first_by_hash ?key {} ?sub"
    by auto
  have dist: "distinct (map ?key ?out)"
    unfolding z by (rule first_by_hash_distinct)
  have keys: "?key ` set ?out = ?key ` set ?sub"
    unfolding z by (simp add: first_by_hash_keys)
  have sub: "set ?out \<subseteq> set ?sub"
    unfolding z by (rule first_by_hash_subset)
  have one: "length (filter (\<lambda>y. ?key y = ?key x) ?out) = 1" if "x \<in> set ?sub" for x
    using distinct_map_filter_one[OF dist, of "?key x"] keys that by blast
  have le: "length (filter (\<lambda>y. frozen_states h1 (fst y) = frozen_states h1 w \<and> snd y = a) ?out)
              \<le> 1" for w a
  proof -
    have "length (filter (\<lambda>y. frozen_states h1 (fst y) = frozen_states h1 w \<and> snd y = a) ?out)
            \<le> length (filter (\<lambda>y. ?key y = H (frozen_states h1 w, a)) ?out)"
      by (rule length_filter_imp) (auto simp: example_hash_def)
    also have "\<dots> \<le> 1"
      using distinct_map_filter_le[OF dist] .
    finally show ?thesis .
  qed
  have exact: "length (filter (\<lambda>y. frozen_states h1 (fst y) = frozen_states h1 (fst x)
                                   \<and> snd y = snd x) ?out) = 1"
    if nc: "\<forall>x \<in> set ?sub. \<forall>y \<in> set ?sub. ?key x = ?key y
              \<longrightarrow> frozen_states h1 (fst x) = frozen_states h1 (fst y) \<and> snd x = snd y"
      and x: "x \<in> set ?sub" for x
  proof -
    from x have "?key x \<in> ?key ` set ?sub" by (rule imageI)
    then have "?key x \<in> ?key ` set ?out" by (simp only: keys)
    then obtain y where y: "y \<in> set ?out" and ky: "?key x = ?key y" by (rule imageE)
    from y sub have ys: "y \<in> set ?sub" by (rule subsetD[rotated])
    from nc[rule_format, OF x ys ky]
    have "frozen_states h1 (fst x) = frozen_states h1 (fst y) \<and> snd x = snd y" .
    then have "frozen_states h1 (fst y) = frozen_states h1 (fst x) \<and> snd y = snd x"
      by simp
    with y have "filter (\<lambda>y. frozen_states h1 (fst y) = frozen_states h1 (fst x)
                                   \<and> snd y = snd x) ?out \<noteq> []"
      by (auto simp: filter_empty_conv)
    then have "1 \<le> length (filter (\<lambda>y. frozen_states h1 (fst y) = frozen_states h1 (fst x)
                                   \<and> snd y = snd x) ?out)"
      by (simp add: Suc_leI)
    with le[of "fst x" "snd x"] show ?thesis by simp
  qed
  show ?thesis
  proof (intro conjI)
    show "\<forall>w1 w2 a.
            list_all2 (\<lambda>s t. map_option set (content h1 s) = map_option set (content h1 t)) w1 w2
            \<longrightarrow> hash_example H h1 w1 a = hash_example H h1 w2 a"
      by (intro allI impI) (rule hash_example_frozen)
    show "h2 = h1" by (rule h)
    show "length A = length S" by (rule la)
    show "length A0 = length S0" by (rule la0)
    show "?out = first_by_hash ?key {} ?sub" by (rule z)
    show "\<forall>x \<in> set ?sub. length (filter (\<lambda>y. ?key y = ?key x) ?out) = 1"
      by (intro ballI) (rule one)
    show "\<forall>w a. length (filter (\<lambda>y. frozen_states h1 (fst y) = frozen_states h1 w \<and> snd y = a)
                        ?out) \<le> 1"
      by (intro allI) (rule le)
    show "(\<forall>x \<in> set ?sub. \<forall>y \<in> set ?sub. ?key x = ?key y
            \<longrightarrow> frozen_states h1 (fst x) = frozen_states h1 (fst y) \<and> snd x = snd y)
        \<longrightarrow> (\<forall>x \<in> set ?sub.
              length (filter (\<lambda>y. frozen_states h1 (fst y) = frozen_states h1 (fst x)
                                   \<and> snd y = snd x) ?out) = 1)"
      by (intro impI ballI) (rule exact)
  qed
qed

theorem remove_duplicates_by_hash_witness:
  "training_states_and_actions (\<lambda>(ws, a). int (length (concat a)))
      (MaxHistoryTrackerFeaturizer None False 1 True)
      [\<lparr>past_states = [[(''intent_greet'', 1)], []],
        applied_events = [ActionExecuted ''a'' False]\<rparr>,
       \<lparr>past_states = [[(''intent_greet'', 1)], []],
        applied_events = [ActionExecuted ''a'' False]\<rparr>,
       \<lparr>past_states = [[(''intent_greet'', 1)], []],
        applied_events = [ActionExecuted ''bb'' False]\<rparr>] []
     = Inr (MaxHistoryTrackerFeaturizer None False 1 True,
            [[Some 0], [Some 4]], [[''a''], [''bb'']],
            [[(''intent_greet'', 1)], [], [(''intent_greet'', 1)], [],
             [(''intent_greet'', 1)], []])
   \<and> training_states_and_actions (\<lambda>(ws, a). int (length (concat a)))
      (MaxHistoryTrackerFeaturizer None False 1 False)
      [\<lparr>past_states = [[(''intent_greet'', 1)], []],
        applied_events = [ActionExecuted ''a'' False]\<rparr>,
       \<lparr>past_states = [[(''intent_greet'', 1)], []],
        applied_events = [ActionExecuted ''a'' False]\<rparr>,
       \<lparr>past_states = [[(''intent_greet'', 1)], []],
        applied_events = [ActionExecuted ''bb'' False]\<rparr>] []
     = Inr (MaxHistoryTrackerFeaturizer None False 1 False,
            [[Some 0], [Some 2], [Some 4]], [[''a''], [''a''], [''bb'']],
            [[(''intent_greet'', 1)], [], [(''intent_greet'', 1)], [],
             [(''intent_greet'', 1)], []])
   \<and> length (filter (\<lambda>y. frozen_states [[(''intent_greet'', 1)], [], [(''intent_greet'', 1)], [],
                                           [(''intent_greet'', 1)], []] (fst y)
                            = frozen_states [[(''intent_greet'', 1)], [], [(''intent_greet'', 1)], [],
                                             [(''intent_greet'', 1)], []] [Some 2]
                          \<and> snd y = [''a''])
               (zip [[Some 0], [Some 4]] [[''a''], [''bb'']])) = 1"
proof -
  let ?H = "(\<lambda>(ws, a). int (length (concat a))) :: hash_fn"
  let ?trs = "[\<lparr>past_states = [[(''intent_greet'', 1)], []],
        applied_events = [ActionExecuted ''a'' False]\<rparr>,
       \<lparr>past_states = [[(''intent_greet'', 1)], []],
        applied_events = [ActionExecuted ''a'' False]\<rparr>,
       \<lparr>past_states = [[(''intent_greet'', 1)], []],
        applied_events = [ActionExecuted ''bb'' False]\<rparr>]"
  let ?h = "[[(''intent_greet'', 1)], [], [(''intent_greet'', 1)], [],
             [(''intent_greet'', 1)], []] :: heap"
  have dd: "training_states_and_actions ?H (MaxHistoryTrackerFeaturizer None False 1 True) ?trs []
     = Inr (MaxHistoryTrackerFeaturizer None False 1 True,
            [[Some 0], [Some 4]], [[''a''], [''bb'']], ?h)"
    by code_simp
  have all: "training_states_and_actions ?H (MaxHistoryTrackerFeaturizer None False 1 False) ?trs []
     = Inr (MaxHistoryTrackerFeaturizer None False 1 False,
            [[Some 0], [Some 2], [Some 4]], [[''a''], [''a''], [''bb'']], ?h)"
    by code_simp
  have low: "1 \<le> length (filter (\<lambda>y. frozen_states ?h (fst y) = frozen_states ?h [Some 2]
                          \<and> snd y = [''a''])
               (zip [[Some 0], [Some 4]] [[''a''], [''bb'']]))"
    by (simp add: frozen_states_def content_def)
  from remove_duplicates_by_hash[OF dd all]
  have "length (filter (\<lambda>y. frozen_states ?h (fst y) = frozen_states ?h [Some 2]
                          \<and> snd y = [''a''])
               (zip [[Some 0], [Some 4]] [[''a''], [''bb'']])) \<le> 1"
    by blast
  with low have "length (filter (\<lambda>y. frozen_states ?h (fst y) = frozen_states ?h [Some 2]
                          \<and> snd y = [''a''])
               (zip [[Some 0], [Some 4]] [[''a''], [''bb'']])) = 1"
    by (rule le_antisym[rotated])
  with dd all show ?thesis by (intro conjI)
qed

text \<open>
  Hashes of different examples do collide: \<open>-1.0\<close> and \<open>-2.0\<close> have the same hash, so two
  windows that differ in such a weight only have the same hash, whatever the hash of
  strings and the combining functions are.
\<close>

lemma floor_minus_one_real: "\<lfloor>- 1 :: real\<rfloor> = - 1"
  by (rule floor_unique) simp_all

lemma hash_float_minus_one: "hash_float p (- 1) = - 2"
  by (simp add: hash_float_def floor_minus_one_real)

lemma hash_float_minus_two: "hash_float p (- 2) = - 2"
  by (simp add: hash_float_def)

lemma python_hash_collision:
  "python_hash p ([None, Some {(k, - 1)}], a) = python_hash p ([None, Some {(k, - 2)}], a)"
  by (simp add: python_hash_def hash_float_minus_one hash_float_minus_two)

text \<open>
  Three trackers with one state and one action each, the weight of the slot being \<open>-1.0\<close>
  in the first and \<open>-2.0\<close> in the other two: the example of the second tracker has the
  hash of the first one's and is skipped, and so is the third's, which is the same pair.
\<close>

lemma python_hash_collision_drops_example:
  "training_states_and_actions (python_hash p) (MaxHistoryTrackerFeaturizer sf uip 2 True)
      [\<lparr>past_states = [[(''slot_x'', - 1)], []],
        applied_events = [ActionExecuted ''utter_greet'' False]\<rparr>,
       \<lparr>past_states = [[(''slot_x'', - 2)], []],
        applied_events = [ActionExecuted ''utter_greet'' False]\<rparr>,
       \<lparr>past_states = [[(''slot_x'', - 2)], []],
        applied_events = [ActionExecuted ''utter_greet'' False]\<rparr>] []
     = Inr (MaxHistoryTrackerFeaturizer sf uip 2 True,
            [[None, Some 0]], [[''utter_greet'']],
            [[(''slot_x'', - 1)], [], [(''slot_x'', - 2)], [], [(''slot_x'', - 2)], []])"
  using python_hash_collision[of p "''slot_x''" "[''utter_greet'']"]
  by (simp add: training_states_and_actions_def max_history_training_states_and_actions_def
      create_states_binary add_example_def hash_example_def frozen_states_def content_def
      slice_state_history_def dict_def Let_def upt_rec nth_append)

lemma python_hash_all_submitted:
  "training_states_and_actions (python_hash p) (MaxHistoryTrackerFeaturizer sf uip 2 False)
      [\<lparr>past_states = [[(''slot_x'', - 1)], []],
        applied_events = [ActionExecuted ''utter_greet'' False]\<rparr>,
       \<lparr>past_states = [[(''slot_x'', - 2)], []],
        applied_events = [ActionExecuted ''utter_greet'' False]\<rparr>,
       \<lparr>past_states = [[(''slot_x'', - 2)], []],
        applied_events = [ActionExecuted ''utter_greet'' False]\<rparr>] []
     = Inr (MaxHistoryTrackerFeaturizer sf uip 2 False,
            [[None, Some 0], [None, Some 2], [None, Some 4]],
            [[''utter_greet''], [''utter_greet''], [''utter_greet'']],
            [[(''slot_x'', - 1)], [], [(''slot_x'', - 2)], [], [(''slot_x'', - 2)], []])"
  by (simp add: training_states_and_actions_def max_history_training_states_and_actions_def
      create_states_binary add_example_def hash_example_def frozen_states_def content_def
      slice_state_history_def dict_def Let_def upt_rec nth_append)

text \<open>
  The claim as stated fails on that batch: the pair of the window \<open>{slot_x: -2.0}\<close> and
  the label \<open>utter_greet\<close> is submitted by the second and by the third tracker (second
  equation, without \<open>remove_duplicates\<close>) and the output with \<open>remove_duplicates\<close> holds
  the example of the first tracker only, not that pair (first equation). The parts of the
  hash that are parameters are fixed here; by the two lemmas above the result is the same
  for all of them. The weights are floats that the featurizer copies without a check.
\<close>

theorem remove_duplicates_collision_counterexample:
  "training_states_and_actions
      (python_hash \<lparr>hash_str = (\<lambda>s. int (length s)), hash_None = 0, hash_tuple = sum_list,
              hash_frozenset = sum_mset, hash_other_float = (\<lambda>x. 0)\<rparr>)
      (MaxHistoryTrackerFeaturizer None False 2 True)
      [\<lparr>past_states = [[(''slot_x'', - 1)], []],
        applied_events = [ActionExecuted ''utter_greet'' False]\<rparr>,
       \<lparr>past_states = [[(''slot_x'', - 2)], []],
        applied_events = [ActionExecuted ''utter_greet'' False]\<rparr>,
       \<lparr>past_states = [[(''slot_x'', - 2)], []],
        applied_events = [ActionExecuted ''utter_greet'' False]\<rparr>] []
     = Inr (MaxHistoryTrackerFeaturizer None False 2 True,
            [[None, Some 0]], [[''utter_greet'']],
            [[(''slot_x'', - 1)], [], [(''slot_x'', - 2)], [], [(''slot_x'', - 2)], []])
   \<and> training_states_and_actions
      (python_hash \<lparr>hash_str = (\<lambda>s. int (length s)), hash_None = 0, hash_tuple = sum_list,
              hash_frozenset = sum_mset, hash_other_float = (\<lambda>x. 0)\<rparr>)
      (MaxHistoryTrackerFeaturizer None False 2 False)
      [\<lparr>past_states = [[(''slot_x'', - 1)], []],
        applied_events = [ActionExecuted ''utter_greet'' False]\<rparr>,
       \<lparr>past_states = [[(''slot_x'', - 2)], []],
        applied_events = [ActionExecuted ''utter_greet'' False]\<rparr>,
       \<lparr>past_states = [[(''slot_x'', - 2)], []],
        applied_events = [ActionExecuted ''utter_greet'' False]\<rparr>] []
     = Inr (MaxHistoryTrackerFeaturizer None False 2 False,
            [[None, Some 0], [None, Some 2], [None, Some 4]],
            [[''utter_greet''], [''utter_greet''], [''utter_greet'']],
            [[(''slot_x'', - 1)], [], [(''slot_x'', - 2)], [], [(''slot_x'', - 2)], []])
   \<and> content [[(''slot_x'', - 1)], [], [(''slot_x'', - 2)], [], [(''slot_x'', - 2)], []] (Some 0) = Some [(''slot_x'', - 1)]
   \<and> content [[(''slot_x'', - 1)], [], [(''slot_x'', - 2)], [], [(''slot_x'', - 2)], []] (Some 2) = Some [(''slot_x'', - 2)]
   \<and> content [[(''slot_x'', - 1)], [], [(''slot_x'', - 2)], [], [(''slot_x'', - 2)], []] (Some 4) = Some [(''slot_x'', - 2)]"
  by (intro conjI)
     (rule python_hash_collision_drops_example, rule python_hash_all_submitted,
      simp_all add: content_def)

subsection \<open>The inference path \<open>create_X\<close>\<close>


















end
